theory Spec2Isabelle
  imports Main "HOL-Library.Word" "HOL-Library.Sublist"
begin

section \<open>SMI protocol primitives (smi/protocol.go)\<close>

subsection \<open>Constants\<close>

text \<open>The frame type bytes are untyped Go constants; the option bytes are \<open>uint8\<close>.\<close>

definition SmiMemWriteReq :: int where "SmiMemWriteReq = 0x01"
definition SmiMemWriteResp :: int where "SmiMemWriteResp = 0xFE"
definition SmiMemReadReq :: int where "SmiMemReadReq = 0x02"
definition SmiMemReadResp :: int where "SmiMemReadResp = 0xFD"

definition DefaultOptions :: "8 word" where "DefaultOptions = 0x00"
definition MemOptUnbuffered :: "8 word" where "MemOptUnbuffered = 0x01"

definition SmiMemBurstSize :: int where "SmiMemBurstSize = 256"

definition SmiMemFrame64Size :: int where
  "SmiMemFrame64Size = 2 + SmiMemBurstSize div 8"

definition SmiMemInFlightLimit :: int where "SmiMemInFlightLimit = 4"

text \<open>
  The capacity of the channel \<open>smiBuffer\<close> made by \<open>ForwardFrame64\<close> and by
  \<open>AssembleFrame64\<close>: the literal 34 of \<open>make(chan Flit64, 34)\<close>.
\<close>

definition smiBufferCap :: nat where "smiBufferCap = 34"

subsection \<open>Flits\<close>

text \<open>
  \<open>Flit64\<close> is a struct of an 8 byte array and a completion code. The array is a list;
  every flit of the program has a \<open>Data\<close> of length 8.
\<close>

record Flit64 =
  Data :: "8 word list"
  Eofc :: "8 word"

text \<open>
  A frame is a run of flits that ends at the first flit with a nonzero completion code.
\<close>

definition open_flits :: "Flit64 list \<Rightarrow> bool" where
  "open_flits fs = (\<forall>f\<in>set fs. Eofc f = 0)"

definition is_frame :: "Flit64 list \<Rightarrow> bool" where
  "is_frame fs = (fs \<noteq> [] \<and> open_flits (butlast fs) \<and> Eofc (last fs) \<noteq> 0)"

subsection \<open>AssembleFrame64\<close>

text \<open>
  The two loops of \<open>AssembleFrame64\<close> run one after the other in the same goroutine. A
  channel is the list of the flits it still holds; a receive from an empty channel and
  a send to the full \<open>smiBuffer\<close> wait for a partner that never comes, so the routine
  does not return: the value is \<open>None\<close>.
\<close>

fun assembleIn :: "Flit64 list \<Rightarrow> Flit64 list \<Rightarrow> (Flit64 list \<times> Flit64 list) option" where
  "assembleIn [] smiBuffer = None"
| "assembleIn (inputFlitData # smiInput) smiBuffer =
     (if length smiBuffer < smiBufferCap
      then (if Eofc inputFlitData = 0
            then assembleIn smiInput (smiBuffer @ [inputFlitData])
            else Some (smiInput, smiBuffer @ [inputFlitData]))
      else None)"

fun assembleOut :: "Flit64 list \<Rightarrow> Flit64 list \<Rightarrow> (Flit64 list \<times> Flit64 list) option" where
  "assembleOut [] smiOutput = None"
| "assembleOut (outputFlitData # smiBuffer) smiOutput =
     (if Eofc outputFlitData = 0
      then assembleOut smiBuffer (smiOutput @ [outputFlitData])
      else Some (smiBuffer, smiOutput @ [outputFlitData]))"

text \<open>The result is the input left unread and the flits written to the output.\<close>

definition AssembleFrame64 :: "Flit64 list \<Rightarrow> (Flit64 list \<times> Flit64 list) option" where
  "AssembleFrame64 smiInput =
     (case assembleIn smiInput [] of
        None \<Rightarrow> None
      | Some (unread, smiBuffer) \<Rightarrow>
          (case assembleOut smiBuffer [] of
             None \<Rightarrow> None
           | Some (_, smiOutput) \<Rightarrow> Some (unread, smiOutput)))"

subsection \<open>ForwardFrame64\<close>

text \<open>
  \<open>ForwardFrame64\<close> runs the input loop in a goroutine of its own and the output loop in
  the caller. Each loop is at a receive, holds a flit it is about to send, or has left
  the loop. A step of a loop is one channel operation; a loop that cannot move (empty
  channel, full buffer, loop left) has no step. The routine returns when the output
  loop is left.
\<close>

datatype relay_pc = AtRecv | AtSend Flit64 | LoopDone

record fwd_state =
  smiInput :: "Flit64 list"
  smiBuffer :: "Flit64 list"
  smiOutput :: "Flit64 list"
  inputLoop :: relay_pc
  outputLoop :: relay_pc

datatype thread = InputLoop | OutputLoop

definition fwd_init :: "Flit64 list \<Rightarrow> fwd_state" where
  "fwd_init inp = \<lparr>smiInput = inp, smiBuffer = [], smiOutput = [],
     inputLoop = AtRecv, outputLoop = AtRecv\<rparr>"

definition after_send :: "Flit64 \<Rightarrow> relay_pc" where
  "after_send f = (if Eofc f = 0 then AtRecv else LoopDone)"

fun fwd_step :: "thread \<Rightarrow> fwd_state \<Rightarrow> fwd_state option" where
  "fwd_step InputLoop s =
     (case inputLoop s of
        AtRecv \<Rightarrow>
          (case smiInput s of
             [] \<Rightarrow> None
           | inputFlitData # rest \<Rightarrow>
               Some (s\<lparr>smiInput := rest, inputLoop := AtSend inputFlitData\<rparr>))
      | AtSend inputFlitData \<Rightarrow>
          (if length (smiBuffer s) < smiBufferCap
           then Some (s\<lparr>smiBuffer := smiBuffer s @ [inputFlitData],
                        inputLoop := after_send inputFlitData\<rparr>)
           else None)
      | LoopDone \<Rightarrow> None)"
| "fwd_step OutputLoop s =
     (case outputLoop s of
        AtRecv \<Rightarrow>
          (case smiBuffer s of
             [] \<Rightarrow> None
           | outputFlitData # rest \<Rightarrow>
               Some (s\<lparr>smiBuffer := rest, outputLoop := AtSend outputFlitData\<rparr>))
      | AtSend outputFlitData \<Rightarrow>
          Some (s\<lparr>smiOutput := smiOutput s @ [outputFlitData],
                  outputLoop := after_send outputFlitData\<rparr>)
      | LoopDone \<Rightarrow> None)"

text \<open>
  A schedule names the loop that is tried next; a loop that cannot move leaves the state
  as it is.
\<close>

fun fwd_run :: "thread list \<Rightarrow> fwd_state \<Rightarrow> fwd_state" where
  "fwd_run [] s = s"
| "fwd_run (t # ts) s =
     (case fwd_step t s of None \<Rightarrow> fwd_run ts s | Some s' \<Rightarrow> fwd_run ts s')"

definition fwd_returned :: "fwd_state \<Rightarrow> bool" where
  "fwd_returned s = (outputLoop s = LoopDone)"

text \<open>
  The routine under a schedule: the input left unread and the flits written to the
  output, once the routine has returned; \<open>None\<close> as long as it has not.
\<close>

definition ForwardFrame64 :: "thread list \<Rightarrow> Flit64 list \<Rightarrow> (Flit64 list \<times> Flit64 list) option" where
  "ForwardFrame64 sched inp =
     (if fwd_returned (fwd_run sched (fwd_init inp))
      then Some (smiInput (fwd_run sched (fwd_init inp)), smiOutput (fwd_run sched (fwd_init inp)))
      else None)"

text \<open>Every step lowers this measure, so no run of the two loops goes on for ever.\<close>

definition pc_weight :: "relay_pc \<Rightarrow> nat" where
  "pc_weight pc = (case pc of AtSend _ \<Rightarrow> 1 | _ \<Rightarrow> 0)"

definition fwd_measure :: "fwd_state \<Rightarrow> nat" where
  "fwd_measure s = 4 * length (smiInput s) + 3 * pc_weight (inputLoop s)
     + 2 * length (smiBuffer s) + pc_weight (outputLoop s)"


subsection \<open>Invariant of the two loops of ForwardFrame64\<close>

text \<open>
  The flits taken from the input so far, in order: those written out, the one the output
  loop holds, the buffer, the one the input loop holds.
\<close>

definition held :: "relay_pc \<Rightarrow> Flit64 list" where
  "held pc = (case pc of AtSend f \<Rightarrow> [f] | _ \<Rightarrow> [])"

definition taken :: "fwd_state \<Rightarrow> Flit64 list" where
  "taken s = smiOutput s @ held (outputLoop s) @ smiBuffer s @ held (inputLoop s)"

definition fwd_inv :: "Flit64 list \<Rightarrow> fwd_state \<Rightarrow> bool" where
  "fwd_inv inp s =
    (taken s @ smiInput s = inp
     \<and> (inputLoop s \<noteq> LoopDone \<longrightarrow> open_flits (smiOutput s @ held (outputLoop s) @ smiBuffer s))
     \<and> (inputLoop s = LoopDone \<longrightarrow> is_frame (taken s))
     \<and> (outputLoop s \<noteq> LoopDone \<longrightarrow> open_flits (smiOutput s))
     \<and> (outputLoop s = LoopDone \<longrightarrow> is_frame (smiOutput s)))"

subsection \<open>Sample flits\<close>

text \<open>
  A header of port 1 with more flits to come, a last body flit, a one-flit frame of
  port 2 with tag 1, and a one-flit frame with the port id 7 that no arbiter has.
\<close>

definition flitA :: Flit64 where
  "flitA = \<lparr>Data = [1, 0, 1, 0, 10, 10, 10, 10], Eofc = 0\<rparr>"

definition flitB :: Flit64 where
  "flitB = \<lparr>Data = [9, 9, 9, 9, 9, 9, 9, 9], Eofc = 8\<rparr>"

definition flitC :: Flit64 where
  "flitC = \<lparr>Data = [2, 0, 2, 1, 12, 12, 12, 12], Eofc = 1\<rparr>"

definition flitD :: Flit64 where
  "flitD = \<lparr>Data = [2, 0, 7, 0, 13, 13, 13, 13], Eofc = 1\<rparr>"

section \<open>Upstream port manager (smi/arbitrate.go, manageUpstreamPort)\<close>

text \<open>
  Where a routine stops: an index outside a Go array is a run-time panic; a goroutine
  that cannot do an operation (it is elsewhere in its code, or the channel is not ready)
  waits.
\<close>

datatype error = IndexOutOfRange | Blocked

subsection \<open>Set-up of the tag pool\<close>

text \<open>
  \<open>for tagInit := uint8(0); tagInit != 4; tagInit++ { tagFifo <- tagInit }\<close> on a channel
  of capacity 4. A send to a full channel would wait for ever.
\<close>

function tagInitLoop :: "8 word \<Rightarrow> 8 word list \<Rightarrow> 8 word list option" where
  "tagInitLoop tagInit fifo =
     (if tagInit \<noteq> 4
      then (if length fifo < 4 then tagInitLoop (tagInit + 1) (fifo @ [tagInit]) else None)
      else Some fifo)"
  by pat_completeness auto
termination
proof (relation "measure (\<lambda>(tagInit, fifo). unat (4 - tagInit))")
  show "wf (measure (\<lambda>(tagInit, fifo). unat (4 - tagInit)))" by simp
next
  fix tagInit :: "8 word" and fifo :: "8 word list"
  assume ne: "tagInit \<noteq> 4"
  define x where "x = 4 - tagInit"
  from ne have "x \<noteq> 0" by (simp add: x_def)
  then have "unat (x - 1) < unat x"
    by (simp add: unat_minus_one unat_gt_0)
  moreover have "4 - (tagInit + 1) = x - 1" by (simp add: x_def)
  ultimately have "unat (4 - (tagInit + 1)) < unat (4 - tagInit)" by (simp only: x_def)
  then show "((tagInit + 1, fifo @ [tagInit]), (tagInit, fifo))
      \<in> measure (\<lambda>(tagInit, fifo). unat (4 - tagInit))"
    by (simp only: in_measure prod.case)
qed

subsection \<open>State\<close>

text \<open>
  The request flow (the goroutine of lines 47 to 68) is at one of its channel
  operations: the receive of a header, the receive of a tag from \<open>tagFifo\<close> (holding the
  header), the send of the port id on \<open>transferReq\<close> and the send of the header on
  \<open>taggedRequest\<close> (holding the rewritten header), the receive of a body flit, or the
  send of a body flit. The response flow (lines 71 to 88) likewise: the receive of a
  header, the send of the tag to \<open>tagFifo\<close> and the send of the header upstream (holding
  the restored header), the receive and the send of a body flit.
\<close>

datatype req_pc =
    RqRecvHeader
  | RqLease Flit64
  | RqSendTransfer Flit64
  | RqSendHeader Flit64
  | RqRecvBody
  | RqSendBody Flit64

datatype resp_pc =
    RsRecvHeader
  | RsRelease Flit64 "8 word"
  | RsSendHeader Flit64
  | RsRecvBody
  | RsSendBody Flit64

record pm_state =
  tagTableLower :: "8 word list"
  tagTableUpper :: "8 word list"
  tagFifo :: "8 word list"
  reqFlow :: req_pc
  respFlow :: resp_pc

text \<open>
  The two arrays are \<open>[4]uint8\<close>, zero at first; \<open>tagFifo\<close> is filled by the set-up loop.
\<close>

definition pm_init :: "pm_state option" where
  "pm_init =
     (case tagInitLoop 0 [] of
        None \<Rightarrow> None
      | Some fifo \<Rightarrow>
          Some \<lparr>tagTableLower = replicate 4 0, tagTableUpper = replicate 4 0,
                tagFifo = fifo, reqFlow = RqRecvHeader, respFlow = RsRecvHeader\<rparr>)"

subsection \<open>Steps\<close>

text \<open>
  A step is one channel operation of one of the two flows, with the value that passes,
  together with the assignments that follow it up to the next channel operation. The
  table writes of lines 53 and 54 are so taken with the receive of the tag, and the table
  reads of lines 76 and 77 with the receive of the response header. This is enough for
  the tag pool, the bounds checks and the request stream, which do not read the tables.
  The two flows share the tables without a lock, so the bytes a response is restored to
  are studied on a finer model, where every table access is a step of its own
  (\<open>rw_step\<close> below).
\<close>

datatype action =
    UpstreamRequest Flit64
  | TagLease "8 word"
  | TransferReq "8 word"
  | TaggedRequest Flit64
  | TaggedResponse Flit64
  | TagRelease "8 word"
  | UpstreamResponse Flit64

text \<open>\<open>moreFlits := flit.Eofc == 0\<close> decides where each flow goes after a send.\<close>

definition req_next :: "Flit64 \<Rightarrow> req_pc" where
  "req_next f = (if Eofc f = 0 then RqRecvBody else RqRecvHeader)"

definition resp_next :: "Flit64 \<Rightarrow> resp_pc" where
  "resp_next f = (if Eofc f = 0 then RsRecvBody else RsRecvHeader)"

fun pm_step :: "8 word \<Rightarrow> pm_state \<Rightarrow> action \<Rightarrow> error + pm_state" where
  "pm_step portId s (UpstreamRequest f) =
     (case reqFlow s of
        RqRecvHeader \<Rightarrow> Inr (s\<lparr>reqFlow := RqLease f\<rparr>)
      | RqRecvBody \<Rightarrow> Inr (s\<lparr>reqFlow := RqSendBody f\<rparr>)
      | _ \<Rightarrow> Inl Blocked)"
| "pm_step portId s (TagLease tagId) =
     (case reqFlow s of
        RqLease headerFlit \<Rightarrow>
          (case tagFifo s of
             [] \<Rightarrow> Inl Blocked
           | t # rest \<Rightarrow>
               if t \<noteq> tagId then Inl Blocked
               else if unat tagId < length (tagTableLower s)
                     \<and> unat tagId < length (tagTableUpper s)
               then Inr (s\<lparr>tagFifo := rest,
                      tagTableLower := (tagTableLower s)[unat tagId := Data headerFlit ! 2],
                      tagTableUpper := (tagTableUpper s)[unat tagId := Data headerFlit ! 3],
                      reqFlow := RqSendTransfer
                        (headerFlit\<lparr>Data := (Data headerFlit)[2 := portId, 3 := tagId]\<rparr>)\<rparr>)
               else Inl IndexOutOfRange)
      | _ \<Rightarrow> Inl Blocked)"
| "pm_step portId s (TransferReq p) =
     (case reqFlow s of
        RqSendTransfer headerFlit \<Rightarrow>
          if p = portId then Inr (s\<lparr>reqFlow := RqSendHeader headerFlit\<rparr>) else Inl Blocked
      | _ \<Rightarrow> Inl Blocked)"
| "pm_step portId s (TaggedRequest f) =
     (case reqFlow s of
        RqSendHeader headerFlit \<Rightarrow>
          if f = headerFlit then Inr (s\<lparr>reqFlow := req_next headerFlit\<rparr>) else Inl Blocked
      | RqSendBody bodyFlit \<Rightarrow>
          if f = bodyFlit then Inr (s\<lparr>reqFlow := req_next bodyFlit\<rparr>) else Inl Blocked
      | _ \<Rightarrow> Inl Blocked)"
| "pm_step portId s (TaggedResponse f) =
     (case respFlow s of
        RsRecvHeader \<Rightarrow>
          (let tagId = Data f ! 3
           in if unat tagId < length (tagTableLower s) \<and> unat tagId < length (tagTableUpper s)
              then Inr (s\<lparr>respFlow := RsRelease
                     (f\<lparr>Data := (Data f)[2 := tagTableLower s ! unat tagId,
                                          3 := tagTableUpper s ! unat tagId]\<rparr>) tagId\<rparr>)
              else Inl IndexOutOfRange)
      | RsRecvBody \<Rightarrow> Inr (s\<lparr>respFlow := RsSendBody f\<rparr>)
      | _ \<Rightarrow> Inl Blocked)"
| "pm_step portId s (TagRelease t) =
     (case respFlow s of
        RsRelease headerFlit tagId \<Rightarrow>
          if t = tagId \<and> length (tagFifo s) < 4
          then Inr (s\<lparr>tagFifo := tagFifo s @ [tagId], respFlow := RsSendHeader headerFlit\<rparr>)
          else Inl Blocked
      | _ \<Rightarrow> Inl Blocked)"
| "pm_step portId s (UpstreamResponse f) =
     (case respFlow s of
        RsSendHeader headerFlit \<Rightarrow>
          if f = headerFlit then Inr (s\<lparr>respFlow := resp_next headerFlit\<rparr>) else Inl Blocked
      | RsSendBody bodyFlit \<Rightarrow>
          if f = bodyFlit then Inr (s\<lparr>respFlow := resp_next bodyFlit\<rparr>) else Inl Blocked
      | _ \<Rightarrow> Inl Blocked)"

fun pm_run :: "8 word \<Rightarrow> pm_state \<Rightarrow> action list \<Rightarrow> error + pm_state" where
  "pm_run portId s [] = Inr s"
| "pm_run portId s (a # acts) =
     (case pm_step portId s a of Inl e \<Rightarrow> Inl e | Inr s' \<Rightarrow> pm_run portId s' acts)"

text \<open>The routine from its start: the set-up, then the channel operations in turn.\<close>

definition manageUpstreamPort :: "8 word \<Rightarrow> action list \<Rightarrow> error + pm_state" where
  "manageUpstreamPort portId acts =
     (case pm_init of None \<Rightarrow> Inl Blocked | Some s \<Rightarrow> pm_run portId s acts)"

text \<open>What a run has sent on \<open>taggedRequest\<close> and on \<open>upstreamResponse\<close>, in order.\<close>

definition tagged_of :: "action \<Rightarrow> Flit64 list" where
  "tagged_of a = (case a of TaggedRequest f \<Rightarrow> [f] | _ \<Rightarrow> [])"

definition upstream_of :: "action \<Rightarrow> Flit64 list" where
  "upstream_of a = (case a of UpstreamResponse f \<Rightarrow> [f] | _ \<Rightarrow> [])"

definition sent_tagged :: "action list \<Rightarrow> Flit64 list" where
  "sent_tagged acts = concat (map tagged_of acts)"

definition sent_upstream :: "action list \<Rightarrow> Flit64 list" where
  "sent_upstream acts = concat (map upstream_of acts)"

subsection \<open>Reference behaviour of a port manager\<close>

text \<open>
  Written from the specification of the port manager, independent of the tag tables and
  of the program counters. It reads the same channel operations and keeps
  \<^item> \<open>issued\<close>: for every tag, the original header of the request that was last given
    that tag (latest first);
  \<^item> \<open>inflight\<close>: the requests in flight, each with its tag and original header, from
    the lease of the tag to the arrival of a response header with that tag;
  \<^item> \<open>expTagged\<close>: the stream expected on \<open>taggedRequest\<close>, each header with the port id
    at offset 2 and the leased tag at offset 3, body flits as they are;
  \<^item> \<open>expUpstream\<close>: the stream expected on \<open>upstreamResponse\<close>, each header with offsets
    2 and 3 set back to the bytes of the original header of the request its tag matches,
    body flits as they are;
  \<^item> \<open>matched\<close>: every response header so far carried a tag that a request was given;
  \<^item> \<open>conforms\<close>: every response header so far carried the tag of a request in flight.
\<close>

record pm_spec =
  expectReqHeader :: bool
  pendingHeader :: "Flit64 option"
  expectRespHeader :: bool
  issued :: "(8 word \<times> Flit64) list"
  inflight :: "(8 word \<times> Flit64) list"
  expTagged :: "Flit64 list"
  expUpstream :: "Flit64 list"
  matched :: bool
  conforms :: bool

definition spec_init :: pm_spec where
  "spec_init = \<lparr>expectReqHeader = True, pendingHeader = None, expectRespHeader = True,
     issued = [], inflight = [], expTagged = [], expUpstream = [],
     matched = True, conforms = True\<rparr>"

definition spec_tagged_header :: "8 word \<Rightarrow> 8 word \<Rightarrow> Flit64 \<Rightarrow> Flit64" where
  "spec_tagged_header portId tagId h = h\<lparr>Data := (Data h)[2 := portId, 3 := tagId]\<rparr>"

definition spec_restored_header :: "Flit64 \<Rightarrow> Flit64 \<Rightarrow> Flit64" where
  "spec_restored_header original r =
     r\<lparr>Data := (Data r)[2 := Data original ! 2, 3 := Data original ! 3]\<rparr>"

definition spec_response_header :: "pm_spec \<Rightarrow> Flit64 \<Rightarrow> pm_spec" where
  "spec_response_header m r =
     m\<lparr>inflight := filter (\<lambda>e. fst e \<noteq> Data r ! 3) (inflight m),
       expUpstream := expUpstream m
         @ [case map_of (issued m) (Data r ! 3) of
              None \<Rightarrow> r
            | Some original \<Rightarrow> spec_restored_header original r],
       matched := (matched m \<and> map_of (issued m) (Data r ! 3) \<noteq> None),
       conforms := (conforms m \<and> Data r ! 3 \<in> set (map fst (inflight m))),
       expectRespHeader := (Eofc r \<noteq> 0)\<rparr>"

fun spec_step :: "8 word \<Rightarrow> pm_spec \<Rightarrow> action \<Rightarrow> pm_spec" where
  "spec_step portId m (UpstreamRequest f) =
     (if expectReqHeader m
      then m\<lparr>pendingHeader := Some f, expectReqHeader := (Eofc f \<noteq> 0)\<rparr>
      else m\<lparr>expTagged := expTagged m @ [f], expectReqHeader := (Eofc f \<noteq> 0)\<rparr>)"
| "spec_step portId m (TagLease tagId) =
     (case pendingHeader m of
        None \<Rightarrow> m
      | Some h \<Rightarrow>
          m\<lparr>pendingHeader := None, issued := (tagId, h) # issued m,
            inflight := inflight m @ [(tagId, h)],
            expTagged := expTagged m @ [spec_tagged_header portId tagId h]\<rparr>)"
| "spec_step portId m (TaggedResponse r) =
     (if expectRespHeader m
      then spec_response_header m r
      else m\<lparr>expUpstream := expUpstream m @ [r], expectRespHeader := (Eofc r \<noteq> 0)\<rparr>)"
| "spec_step portId m _ = m"

definition spec_run :: "8 word \<Rightarrow> action list \<Rightarrow> pm_spec" where
  "spec_run portId acts = foldl (spec_step portId) spec_init acts"

subsection \<open>Invariants of a run\<close>

text \<open>
  The flit a flow holds and is about to send, whether the next flit a flow receives
  after its present operation starts a frame, the header that waits for a tag, and the
  tag the response flow is about to give back.
\<close>

definition req_held :: "req_pc \<Rightarrow> Flit64 list" where
  "req_held pc = (case pc of RqSendTransfer h \<Rightarrow> [h] | RqSendHeader h \<Rightarrow> [h]
     | RqSendBody f \<Rightarrow> [f] | _ \<Rightarrow> [])"

definition req_expect :: "req_pc \<Rightarrow> bool" where
  "req_expect pc = (case pc of RqRecvHeader \<Rightarrow> True | RqLease h \<Rightarrow> Eofc h \<noteq> 0
     | RqSendTransfer h \<Rightarrow> Eofc h \<noteq> 0 | RqSendHeader h \<Rightarrow> Eofc h \<noteq> 0
     | RqRecvBody \<Rightarrow> False | RqSendBody f \<Rightarrow> Eofc f \<noteq> 0)"

definition req_pending :: "req_pc \<Rightarrow> Flit64 option" where
  "req_pending pc = (case pc of RqLease h \<Rightarrow> Some h | _ \<Rightarrow> None)"

definition resp_held :: "resp_pc \<Rightarrow> Flit64 list" where
  "resp_held pc = (case pc of RsRelease h t \<Rightarrow> [h] | RsSendHeader h \<Rightarrow> [h]
     | RsSendBody f \<Rightarrow> [f] | _ \<Rightarrow> [])"

definition resp_expect :: "resp_pc \<Rightarrow> bool" where
  "resp_expect pc = (case pc of RsRecvHeader \<Rightarrow> True | RsRelease h t \<Rightarrow> Eofc h \<noteq> 0
     | RsSendHeader h \<Rightarrow> Eofc h \<noteq> 0 | RsRecvBody \<Rightarrow> False | RsSendBody f \<Rightarrow> Eofc f \<noteq> 0)"

definition resp_tag :: "resp_pc \<Rightarrow> 8 word list" where
  "resp_tag pc = (case pc of RsRelease h t \<Rightarrow> [t] | _ \<Rightarrow> [])"

definition req_inv :: "Flit64 list \<Rightarrow> pm_state \<Rightarrow> pm_spec \<Rightarrow> bool" where
  "req_inv sent s m =
     (expTagged m = sent @ req_held (reqFlow s)
      \<and> expectReqHeader m = req_expect (reqFlow s)
      \<and> pendingHeader m = req_pending (reqFlow s))"

definition all_tags :: "pm_state \<Rightarrow> pm_spec \<Rightarrow> 8 word list" where
  "all_tags s m = map fst (inflight m) @ tagFifo s @ resp_tag (respFlow s)"

definition table_inv :: "pm_state \<Rightarrow> pm_spec \<Rightarrow> bool" where
  "table_inv s m =
     (\<forall>t h. map_of (issued m) t = Some h \<longrightarrow>
        unat t < 4 \<and> tagTableLower s ! unat t = Data h ! 2
        \<and> tagTableUpper s ! unat t = Data h ! 3)"

definition resp_inv :: "Flit64 list \<Rightarrow> pm_state \<Rightarrow> pm_spec \<Rightarrow> bool" where
  "resp_inv sent s m =
     (expectRespHeader m = resp_expect (respFlow s)
      \<and> length (tagTableLower s) = 4 \<and> length (tagTableUpper s) = 4
      \<and> table_inv s m
      \<and> (matched m \<longrightarrow> expUpstream m = sent @ resp_held (respFlow s))
      \<and> (conforms m \<longrightarrow> distinct (all_tags s m) \<and> set (all_tags s m) = {0, 1, 2, 3}
            \<and> list_all (\<lambda>e. map_of (issued m) (fst e) = Some (snd e)) (inflight m)
            \<and> matched m))"

text \<open>What keeps the table accesses in range: both tables have four entries and every tag
  in the pool, or on its way back to it, is below 4.\<close>

definition safe_inv :: "pm_state \<Rightarrow> bool" where
  "safe_inv s =
     (length (tagTableLower s) = 4 \<and> length (tagTableUpper s) = 4
      \<and> list_all (\<lambda>t. unat t < 4) (tagFifo s @ resp_tag (respFlow s)))"

subsection \<open>Sample runs\<close>

text \<open>
  One-flit requests with the original bytes \<open>0xA0 + k\<close> and \<open>0xB0 + k\<close> at offsets 2 and
  3, one-flit responses for port 1 with tag \<open>t\<close>, and a response whose tag byte is 7.
\<close>

definition sample_req :: "8 word \<Rightarrow> Flit64" where
  "sample_req k = \<lparr>Data = [2, 0, 0xA0 + k, 0xB0 + k, 0, 0, 0, 0], Eofc = 4\<rparr>"

definition sample_resp :: "8 word \<Rightarrow> Flit64" where
  "sample_resp t = \<lparr>Data = [0xFD, 0, 1, t, 5, 6, 7, 8], Eofc = 8\<rparr>"

definition bad_resp :: Flit64 where
  "bad_resp = \<lparr>Data = [0xFD, 0, 1, 7, 0, 0, 0, 0], Eofc = 8\<rparr>"

definition request_acts :: "8 word \<Rightarrow> 8 word \<Rightarrow> action list" where
  "request_acts k t =
     [UpstreamRequest (sample_req k), TagLease t, TransferReq 1,
      TaggedRequest (spec_tagged_header 1 t (sample_req k))]"

definition response_acts :: "8 word \<Rightarrow> 8 word \<Rightarrow> action list" where
  "response_acts t k =
     [TaggedResponse (sample_resp t), TagRelease t,
      UpstreamResponse (spec_restored_header (sample_req k) (sample_resp t))]"

text \<open>Four requests in flight at once, answered in another order.\<close>

definition four_in_flight :: "action list" where
  "four_in_flight =
     request_acts 0 0 @ request_acts 1 1 @ request_acts 2 2 @ request_acts 3 3"

definition four_answered :: "action list" where
  "four_answered =
     four_in_flight @ response_acts 2 2 @ response_acts 0 0 @ response_acts 3 3
       @ response_acts 1 1"

text \<open>
  One request, then a response with tag 1 that no request holds, then four more requests.
\<close>

definition unsolicited_run :: "action list" where
  "unsolicited_run =
     request_acts 0 0
       @ [TaggedResponse (sample_resp 1), TagRelease 1,
          UpstreamResponse \<lparr>Data = [0xFD, 0, 0, 0, 5, 6, 7, 8], Eofc = 8\<rparr>]
       @ request_acts 1 1 @ request_acts 2 2 @ request_acts 3 3 @ request_acts 4 1"

text \<open>
  The channel operations of the request flow for one frame, header \<open>h\<close> and the flits
  \<open>body\<close> after it, with the tag \<open>tagId\<close> taken from the pool.
\<close>

definition request_frame_acts :: "8 word \<Rightarrow> 8 word \<Rightarrow> Flit64 \<Rightarrow> Flit64 list \<Rightarrow> action list" where
  "request_frame_acts portId tagId h body =
     [UpstreamRequest h, TagLease tagId, TransferReq portId,
      TaggedRequest (spec_tagged_header portId tagId h)]
       @ concat (map (\<lambda>f. [UpstreamRequest f, TaggedRequest f]) body)"

text \<open>A request header with the original bytes \<open>0xAA\<close> and \<open>0xBB\<close> and more flits to come.\<close>

definition sample_hdr :: Flit64 where
  "sample_hdr = \<lparr>Data = [1, 0, 0xAA, 0xBB, 0, 0x10, 0, 0], Eofc = 0\<rparr>"

section \<open>Arbiters (smi/arbitrate.go): the two loops of ArbitrateX2, X3 and X4\<close>

datatype port = PortA | PortB | PortC | PortD

subsection \<open>Steering of responses\<close>

text \<open>
  The \<open>switch portId\<close> of each steering loop: the channel \<open>taggedResponseA\<close> ..
  \<open>taggedResponseD\<close> the flit is sent to, or \<open>None\<close> for the \<open>default\<close> branch, which
  discards it.
\<close>

definition steerX2 :: "8 word \<Rightarrow> port option" where
  "steerX2 portId =
     (if portId = 1 then Some PortA else if portId = 2 then Some PortB else None)"

definition steerX3 :: "8 word \<Rightarrow> port option" where
  "steerX3 portId =
     (if portId = 1 then Some PortA else if portId = 2 then Some PortB
      else if portId = 3 then Some PortC else None)"

definition steerX4 :: "8 word \<Rightarrow> port option" where
  "steerX4 portId =
     (if portId = 1 then Some PortA else if portId = 2 then Some PortB
      else if portId = 3 then Some PortC else if portId = 4 then Some PortD else None)"

text \<open>
  One iteration of the steering loop, the same in the three arbiters but for the switch.
  The state is the pair of the locals \<open>portId\<close> and \<open>isHeaderFlit\<close>; the result is the
  new state and where the flit went.
\<close>

definition steerFlit ::
  "(8 word \<Rightarrow> port option) \<Rightarrow> 8 word \<times> bool \<Rightarrow> Flit64
    \<Rightarrow> (8 word \<times> bool) \<times> (port option \<times> Flit64)" where
  "steerFlit switch st respFlit =
     (case st of (portId, isHeaderFlit) \<Rightarrow>
        (let portId' = (if isHeaderFlit then Data respFlit ! 2 else portId)
         in ((portId', Eofc respFlit \<noteq> 0), (switch portId', respFlit))))"

fun steerLoop ::
  "(8 word \<Rightarrow> port option) \<Rightarrow> 8 word \<times> bool \<Rightarrow> Flit64 list
    \<Rightarrow> (port option \<times> Flit64) list" where
  "steerLoop switch st [] = []"
| "steerLoop switch st (respFlit # downstreamResponse) =
     snd (steerFlit switch st respFlit)
       # steerLoop switch (fst (steerFlit switch st respFlit)) downstreamResponse"

text \<open>The locals start as \<open>portId := uint8(0)\<close> and \<open>isHeaderFlit := true\<close>.\<close>

definition steer_init :: "8 word \<times> bool" where
  "steer_init = (0, True)"

definition ArbitrateX2_steer :: "Flit64 list \<Rightarrow> (port option \<times> Flit64) list" where
  "ArbitrateX2_steer downstreamResponse = steerLoop steerX2 steer_init downstreamResponse"

definition ArbitrateX3_steer :: "Flit64 list \<Rightarrow> (port option \<times> Flit64) list" where
  "ArbitrateX3_steer downstreamResponse = steerLoop steerX3 steer_init downstreamResponse"

definition ArbitrateX4_steer :: "Flit64 list \<Rightarrow> (port option \<times> Flit64) list" where
  "ArbitrateX4_steer downstreamResponse = steerLoop steerX4 steer_init downstreamResponse"

text \<open>The flits sent to one tagged-response channel, in order.\<close>

definition delivered :: "port \<Rightarrow> (port option \<times> Flit64) list \<Rightarrow> Flit64 list" where
  "delivered k steered = map snd (filter (\<lambda>d. fst d = Some k) steered)"

text \<open>The port id a response frame carries: byte 2 of its header flit.\<close>

definition frame_port :: "Flit64 list \<Rightarrow> 8 word" where
  "frame_port fr = Data (hd fr) ! 2"

subsection \<open>Arbitration of requests\<close>

text \<open>
  The \<open>switch portId\<close> of each copy loop: the channel \<open>taggedRequestA\<close> ..
  \<open>taggedRequestD\<close> the next flit is read from. The last channel is the \<open>default\<close>.
\<close>

definition selectX2 :: "8 word \<Rightarrow> port" where
  "selectX2 portId = (if portId = 1 then PortA else PortB)"

definition selectX3 :: "8 word \<Rightarrow> port" where
  "selectX3 portId = (if portId = 1 then PortA else if portId = 2 then PortB else PortC)"

definition selectX4 :: "8 word \<Rightarrow> port" where
  "selectX4 portId =
     (if portId = 1 then PortA else if portId = 2 then PortB
      else if portId = 3 then PortC else PortD)"

text \<open>
  The inner loop \<open>for moreFlits\<close> on one channel, given the flits that channel will
  carry: the flits copied downstream, the flits left on the channel, and whether the loop
  was left. On an exhausted channel the receive never returns and the loop is not left.
\<close>

fun copyFrame :: "Flit64 list \<Rightarrow> Flit64 list \<times> Flit64 list \<times> bool" where
  "copyFrame [] = ([], [], False)"
| "copyFrame (reqFlit # taggedRequest) =
     (if Eofc reqFlit = 0
      then (case copyFrame taggedRequest of
              (copied, left, completed) \<Rightarrow> (reqFlit # copied, left, completed))
      else ([reqFlit], taggedRequest, True))"

text \<open>
  The outer loop. The \<open>select\<close> takes a port id from whichever transfer-request channel
  is ready; the port ids it takes, in the order it takes them, are the first argument.
  The result is the stream written to \<open>downstreamRequest\<close>, every flit paired with the
  channel it was read from.
\<close>

fun arbitrateLoop ::
  "(8 word \<Rightarrow> port) \<Rightarrow> 8 word list \<Rightarrow> (port \<Rightarrow> Flit64 list) \<Rightarrow> (port \<times> Flit64) list" where
  "arbitrateLoop switch [] taggedRequest = []"
| "arbitrateLoop switch (portId # transferReq) taggedRequest =
     (case copyFrame (taggedRequest (switch portId)) of
        (copied, left, completed) \<Rightarrow>
          map (Pair (switch portId)) copied
            @ (if completed
               then arbitrateLoop switch transferReq (taggedRequest(switch portId := left))
               else []))"

definition ArbitrateX2_requests ::
  "8 word list \<Rightarrow> (port \<Rightarrow> Flit64 list) \<Rightarrow> (port \<times> Flit64) list" where
  "ArbitrateX2_requests transferReq taggedRequest = arbitrateLoop selectX2 transferReq taggedRequest"

definition ArbitrateX3_requests ::
  "8 word list \<Rightarrow> (port \<Rightarrow> Flit64 list) \<Rightarrow> (port \<times> Flit64) list" where
  "ArbitrateX3_requests transferReq taggedRequest = arbitrateLoop selectX3 transferReq taggedRequest"

definition ArbitrateX4_requests ::
  "8 word list \<Rightarrow> (port \<Rightarrow> Flit64 list) \<Rightarrow> (port \<times> Flit64) list" where
  "ArbitrateX4_requests transferReq taggedRequest = arbitrateLoop selectX4 transferReq taggedRequest"

text \<open>
  Frame atomicity of a merged stream: while a frame is open (its last flit so far had
  completion code 0) the next flit comes from the same channel.
\<close>

fun atomic_frames :: "port option \<Rightarrow> (port \<times> Flit64) list \<Rightarrow> bool" where
  "atomic_frames cur [] = True"
| "atomic_frames cur (x # xs) =
     ((cur = None \<or> cur = Some (fst x))
      \<and> atomic_frames (if Eofc (snd x) = 0 then Some (fst x) else None) xs)"

text \<open>The flits of a merged stream that were read from one channel, in order.\<close>

definition read_from :: "port \<Rightarrow> (port \<times> Flit64) list \<Rightarrow> Flit64 list" where
  "read_from c merged = map snd (filter (\<lambda>x. fst x = c) merged)"

section \<open>Port manager with every table access a step of its own\<close>

text \<open>
  The two flows of \<open>manageUpstreamPort\<close> share \<open>tagTableLower\<close> and \<open>tagTableUpper\<close>
  with no lock. Here every write (lines 53 and 54) and every read (lines 76 and 77) of a
  table is a step of its own, so that the two flows interleave between a receive and
  the table accesses that follow it, and between the two accesses. The request flow is
  at the receive of a header, at the receive of a tag (with the header), at the write
  of the lower and of the upper table (with the header and the tag), at the send of
  the port id and of the header (with the rewritten header), or at the receive or the
  send of a body flit. The response flow is at the receive of a header, at the read of
  the lower and of the upper table (with the header so far and the tag of line 75), at
  the send of the tag and of the header (with the restored header), or at the receive
  or the send of a body flit.
\<close>

datatype rq_at =
    RqAtHeader
  | RqAtLease Flit64
  | RqAtWriteLower Flit64 "8 word"
  | RqAtWriteUpper Flit64 "8 word"
  | RqAtTransfer Flit64
  | RqAtSendHeader Flit64
  | RqAtBody
  | RqAtSendBody Flit64

datatype rs_at =
    RsAtHeader
  | RsAtReadLower Flit64 "8 word"
  | RsAtReadUpper Flit64 "8 word"
  | RsAtRelease Flit64 "8 word"
  | RsAtSendHeader Flit64
  | RsAtBody
  | RsAtSendBody Flit64

record rw_state =
  tagTableLower_rw :: "8 word list"
  tagTableUpper_rw :: "8 word list"
  tagFifo_rw :: "8 word list"
  req_rw :: rq_at
  resp_rw :: rs_at

definition rw_init :: "rw_state option" where
  "rw_init =
     (case tagInitLoop 0 [] of
        None \<Rightarrow> None
      | Some fifo \<Rightarrow>
          Some \<lparr>tagTableLower_rw = replicate 4 0, tagTableUpper_rw = replicate 4 0,
                tagFifo_rw = fifo, req_rw = RqAtHeader, resp_rw = RsAtHeader\<rparr>)"

text \<open>A step is a channel operation or one access to a table.\<close>

datatype rw_action = Channel action | WriteLower | WriteUpper | ReadLower | ReadUpper

definition rq_next :: "Flit64 \<Rightarrow> rq_at" where
  "rq_next f = (if Eofc f = 0 then RqAtBody else RqAtHeader)"

definition rs_next :: "Flit64 \<Rightarrow> rs_at" where
  "rs_next f = (if Eofc f = 0 then RsAtBody else RsAtHeader)"

fun rw_step :: "8 word \<Rightarrow> rw_state \<Rightarrow> rw_action \<Rightarrow> error + rw_state" where
  "rw_step portId s (Channel (UpstreamRequest f)) =
     (case req_rw s of
        RqAtHeader \<Rightarrow> Inr (s\<lparr>req_rw := RqAtLease f\<rparr>)
      | RqAtBody \<Rightarrow> Inr (s\<lparr>req_rw := RqAtSendBody f\<rparr>)
      | _ \<Rightarrow> Inl Blocked)"
| "rw_step portId s (Channel (TagLease tagId)) =
     (case req_rw s of
        RqAtLease headerFlit \<Rightarrow>
          (case tagFifo_rw s of
             [] \<Rightarrow> Inl Blocked
           | t # rest \<Rightarrow>
               if t \<noteq> tagId then Inl Blocked
               else Inr (s\<lparr>tagFifo_rw := rest, req_rw := RqAtWriteLower headerFlit tagId\<rparr>))
      | _ \<Rightarrow> Inl Blocked)"
| "rw_step portId s WriteLower =
     (case req_rw s of
        RqAtWriteLower headerFlit tagId \<Rightarrow>
          if unat tagId < length (tagTableLower_rw s)
          then Inr (s\<lparr>tagTableLower_rw :=
                         (tagTableLower_rw s)[unat tagId := Data headerFlit ! 2],
                       req_rw := RqAtWriteUpper headerFlit tagId\<rparr>)
          else Inl IndexOutOfRange
      | _ \<Rightarrow> Inl Blocked)"
| "rw_step portId s WriteUpper =
     (case req_rw s of
        RqAtWriteUpper headerFlit tagId \<Rightarrow>
          if unat tagId < length (tagTableUpper_rw s)
          then Inr (s\<lparr>tagTableUpper_rw :=
                         (tagTableUpper_rw s)[unat tagId := Data headerFlit ! 3],
                       req_rw := RqAtTransfer
                         (headerFlit\<lparr>Data := (Data headerFlit)[2 := portId, 3 := tagId]\<rparr>)\<rparr>)
          else Inl IndexOutOfRange
      | _ \<Rightarrow> Inl Blocked)"
| "rw_step portId s (Channel (TransferReq p)) =
     (case req_rw s of
        RqAtTransfer headerFlit \<Rightarrow>
          if p = portId then Inr (s\<lparr>req_rw := RqAtSendHeader headerFlit\<rparr>) else Inl Blocked
      | _ \<Rightarrow> Inl Blocked)"
| "rw_step portId s (Channel (TaggedRequest f)) =
     (case req_rw s of
        RqAtSendHeader headerFlit \<Rightarrow>
          if f = headerFlit then Inr (s\<lparr>req_rw := rq_next headerFlit\<rparr>) else Inl Blocked
      | RqAtSendBody bodyFlit \<Rightarrow>
          if f = bodyFlit then Inr (s\<lparr>req_rw := rq_next bodyFlit\<rparr>) else Inl Blocked
      | _ \<Rightarrow> Inl Blocked)"
| "rw_step portId s (Channel (TaggedResponse f)) =
     (case resp_rw s of
        RsAtHeader \<Rightarrow> Inr (s\<lparr>resp_rw := RsAtReadLower f (Data f ! 3)\<rparr>)
      | RsAtBody \<Rightarrow> Inr (s\<lparr>resp_rw := RsAtSendBody f\<rparr>)
      | _ \<Rightarrow> Inl Blocked)"
| "rw_step portId s ReadLower =
     (case resp_rw s of
        RsAtReadLower headerFlit tagId \<Rightarrow>
          if unat tagId < length (tagTableLower_rw s)
          then Inr (s\<lparr>resp_rw := RsAtReadUpper
                 (headerFlit\<lparr>Data := (Data headerFlit)[2 := tagTableLower_rw s ! unat tagId]\<rparr>)
                 tagId\<rparr>)
          else Inl IndexOutOfRange
      | _ \<Rightarrow> Inl Blocked)"
| "rw_step portId s ReadUpper =
     (case resp_rw s of
        RsAtReadUpper headerFlit tagId \<Rightarrow>
          if unat tagId < length (tagTableUpper_rw s)
          then Inr (s\<lparr>resp_rw := RsAtRelease
                 (headerFlit\<lparr>Data := (Data headerFlit)[3 := tagTableUpper_rw s ! unat tagId]\<rparr>)
                 tagId\<rparr>)
          else Inl IndexOutOfRange
      | _ \<Rightarrow> Inl Blocked)"
| "rw_step portId s (Channel (TagRelease t)) =
     (case resp_rw s of
        RsAtRelease headerFlit tagId \<Rightarrow>
          if t = tagId \<and> length (tagFifo_rw s) < 4
          then Inr (s\<lparr>tagFifo_rw := tagFifo_rw s @ [tagId], resp_rw := RsAtSendHeader headerFlit\<rparr>)
          else Inl Blocked
      | _ \<Rightarrow> Inl Blocked)"
| "rw_step portId s (Channel (UpstreamResponse f)) =
     (case resp_rw s of
        RsAtSendHeader headerFlit \<Rightarrow>
          if f = headerFlit then Inr (s\<lparr>resp_rw := rs_next headerFlit\<rparr>) else Inl Blocked
      | RsAtSendBody bodyFlit \<Rightarrow>
          if f = bodyFlit then Inr (s\<lparr>resp_rw := rs_next bodyFlit\<rparr>) else Inl Blocked
      | _ \<Rightarrow> Inl Blocked)"

fun rw_run :: "8 word \<Rightarrow> rw_state \<Rightarrow> rw_action list \<Rightarrow> error + rw_state" where
  "rw_run portId s [] = Inr s"
| "rw_run portId s (a # acts) =
     (case rw_step portId s a of Inl e \<Rightarrow> Inl e | Inr s' \<Rightarrow> rw_run portId s' acts)"

definition manageUpstreamPort_rw :: "8 word \<Rightarrow> rw_action list \<Rightarrow> error + rw_state" where
  "manageUpstreamPort_rw portId acts =
     (case rw_init of None \<Rightarrow> Inl Blocked | Some s \<Rightarrow> rw_run portId s acts)"

text \<open>What a run has sent on \<open>upstreamResponse\<close>, in order.\<close>

definition rw_upstream_of :: "rw_action \<Rightarrow> Flit64 list" where
  "rw_upstream_of a = (case a of Channel (UpstreamResponse f) \<Rightarrow> [f] | _ \<Rightarrow> [])"

definition rw_sent_upstream :: "rw_action list \<Rightarrow> Flit64 list" where
  "rw_sent_upstream acts = concat (map rw_upstream_of acts)"

subsection \<open>Reference behaviour of the round trip\<close>

text \<open>
  Written from the specification, independent of the tables and of where the flows are.
  It reads the channel operations only and keeps
  \<^item> \<open>rt_leasing\<close>: the request that has been given a tag and whose header has not been
    sent on \<open>taggedRequest\<close> yet, with its tag and its original header;
  \<^item> \<open>rt_downstream\<close>: the requests whose header has been sent on \<open>taggedRequest\<close> and that
    no response header has answered yet, each with its tag and its original header;
  \<^item> \<open>rt_upstream\<close>: the stream expected on \<open>upstreamResponse\<close>: each response header
    with offsets 2 and 3 set back to the bytes of the original header of the request
    downstream that holds its tag, every body flit as it is;
  \<^item> \<open>rt_causal\<close>: every response header so far carried the tag of a request that was
    downstream at that moment, that is, it matched a request.
\<close>

record rt_spec =
  rt_expectReq :: bool
  rt_pending :: "Flit64 option"
  rt_leasing :: "(8 word \<times> Flit64) option"
  rt_downstream :: "(8 word \<times> Flit64) list"
  rt_expectResp :: bool
  rt_upstream :: "Flit64 list"
  rt_causal :: bool

definition rt_init :: rt_spec where
  "rt_init = \<lparr>rt_expectReq = True, rt_pending = None, rt_leasing = None,
     rt_downstream = [], rt_expectResp = True, rt_upstream = [], rt_causal = True\<rparr>"

definition rt_response_header :: "rt_spec \<Rightarrow> Flit64 \<Rightarrow> rt_spec" where
  "rt_response_header m r =
     m\<lparr>rt_downstream := filter (\<lambda>e. fst e \<noteq> Data r ! 3) (rt_downstream m),
       rt_upstream := rt_upstream m
         @ [case map_of (rt_downstream m) (Data r ! 3) of
              None \<Rightarrow> r
            | Some original \<Rightarrow> spec_restored_header original r],
       rt_causal := (rt_causal m \<and> Data r ! 3 \<in> set (map fst (rt_downstream m))),
       rt_expectResp := (Eofc r \<noteq> 0)\<rparr>"

fun rt_step :: "rt_spec \<Rightarrow> rw_action \<Rightarrow> rt_spec" where
  "rt_step m (Channel (UpstreamRequest f)) =
     (if rt_expectReq m
      then m\<lparr>rt_pending := Some f, rt_expectReq := (Eofc f \<noteq> 0)\<rparr>
      else m\<lparr>rt_expectReq := (Eofc f \<noteq> 0)\<rparr>)"
| "rt_step m (Channel (TagLease tagId)) =
     (case rt_pending m of
        None \<Rightarrow> m
      | Some h \<Rightarrow> m\<lparr>rt_pending := None, rt_leasing := Some (tagId, h)\<rparr>)"
| "rt_step m (Channel (TaggedRequest f)) =
     (case rt_leasing m of
        None \<Rightarrow> m
      | Some e \<Rightarrow> m\<lparr>rt_leasing := None, rt_downstream := rt_downstream m @ [e]\<rparr>)"
| "rt_step m (Channel (TaggedResponse r)) =
     (if rt_expectResp m
      then rt_response_header m r
      else m\<lparr>rt_upstream := rt_upstream m @ [r], rt_expectResp := (Eofc r \<noteq> 0)\<rparr>)"
| "rt_step m _ = m"

definition rt_run :: "rw_action list \<Rightarrow> rt_spec" where
  "rt_run acts = foldl rt_step rt_init acts"


subsection \<open>Invariant of a run\<close>













subsection \<open>Sample runs\<close>





text \<open>
  A response with tag 0 that arrives after tag 0 has been given to a request and before
  the header of that request has been sent on \<open>taggedRequest\<close>: the lower table has been
  written, the upper one has not.
\<close>

definition rw_early_response :: "rw_action list" where
  "rw_early_response =
     [Channel (UpstreamRequest (sample_req 0)), Channel (TagLease 0), WriteLower,
      Channel (TaggedResponse (sample_resp 0)), ReadLower, ReadUpper, WriteUpper,
      Channel (TagRelease 0),
      Channel (UpstreamResponse \<lparr>Data = [0xFD, 0, 0xA0, 0, 5, 6, 7, 8], Eofc = 8\<rparr>)]"

section \<open>Protocol constants\<close>

text \<open>
  C9: the protocol constants have the values 0x01, 0xFE, 0x02, 0xFD, 0x00, 0x01, 256,
  4 and 34 = 2 + 256 / 8, and the buffer of both relays has capacity 34, the frame size.
\<close>

theorem protocol_constants:
  "SmiMemWriteReq = 0x01 \<and> SmiMemWriteResp = 0xFE \<and> SmiMemReadReq = 0x02
   \<and> SmiMemReadResp = 0xFD \<and> DefaultOptions = 0x00 \<and> MemOptUnbuffered = 0x01
   \<and> SmiMemBurstSize = 256 \<and> SmiMemInFlightLimit = 4
   \<and> SmiMemFrame64Size = 34 \<and> SmiMemFrame64Size = 2 + SmiMemBurstSize div 8
   \<and> int smiBufferCap = SmiMemFrame64Size"
  by (simp add: SmiMemWriteReq_def SmiMemWriteResp_def SmiMemReadReq_def
      SmiMemReadResp_def DefaultOptions_def MemOptUnbuffered_def SmiMemBurstSize_def
      SmiMemInFlightLimit_def SmiMemFrame64Size_def smiBufferCap_def)

section \<open>Frame relays\<close>

lemma open_flits_simps [simp]:
  "open_flits []"
  "open_flits (f # fs) = (Eofc f = 0 \<and> open_flits fs)"
  "open_flits (xs @ ys) = (open_flits xs \<and> open_flits ys)"
  by (auto simp: open_flits_def)

lemma is_frame_Nil [simp]: "\<not> is_frame []"
  by (simp add: is_frame_def)

lemma is_frame_snoc [simp]: "is_frame (xs @ [f]) = (open_flits xs \<and> Eofc f \<noteq> 0)"
  by (simp add: is_frame_def)

lemma is_frame_iff: "is_frame fs = (\<exists>xs f. fs = xs @ [f] \<and> open_flits xs \<and> Eofc f \<noteq> 0)"
proof (cases fs rule: rev_cases)
  case Nil then show ?thesis by simp
next
  case (snoc ys y) then show ?thesis by simp
qed

lemma is_frame_Cons [simp]:
  "is_frame (f # fs) = (if fs = [] then Eofc f \<noteq> 0 else Eofc f = 0 \<and> is_frame fs)"
  by (cases fs rule: rev_cases) (simp_all add: is_frame_def)

lemma is_frame_append [simp]:
  "ys \<noteq> [] \<Longrightarrow> is_frame (xs @ ys) = (open_flits xs \<and> is_frame ys)"
  by (cases ys rule: rev_cases) (simp_all add: is_frame_def butlast_append)

lemma is_frame_not_open: "is_frame fs \<Longrightarrow> \<not> open_flits fs"
  by (auto simp: is_frame_iff)

lemma frame_prefix_unique:
  assumes "is_frame a" "is_frame b" "a @ r = b @ r'"
  shows "a = b \<and> r = r'"
proof -
  from assms(3) consider (l) us where "a = b @ us" "us @ r = r'" | (r) us where "a @ us = b" "r = us @ r'"
    by (auto simp: append_eq_append_conv2)
  then show ?thesis
  proof cases
    case l
    show ?thesis
    proof (cases "us = []")
      case True with l show ?thesis by simp
    next
      case False
      with assms(1) l have "open_flits b" by simp
      with assms(2) show ?thesis by (simp add: is_frame_not_open)
    qed
  next
    case r
    show ?thesis
    proof (cases "us = []")
      case True with r show ?thesis by simp
    next
      case False
      with assms(2) r have "open_flits a" by auto
      with assms(1) show ?thesis by (simp add: is_frame_not_open)
    qed
  qed
qed

lemma fwd_inv_init: "fwd_inv inp (fwd_init inp)"
  by (simp add: fwd_inv_def fwd_init_def taken_def held_def)

lemma fwd_inv_input:
  assumes "fwd_inv inp s" "fwd_step InputLoop s = Some s'"
  shows "fwd_inv inp s'"
proof (cases "inputLoop s")
  case AtRecv
  with assms obtain f rest where "smiInput s = f # rest"
    and "s' = s\<lparr>smiInput := rest, inputLoop := AtSend f\<rparr>"
    by (cases "smiInput s") auto
  with assms(1) AtRecv show ?thesis
    by (simp add: fwd_inv_def taken_def held_def)
next
  case (AtSend f)
  with assms have "s' = s\<lparr>smiBuffer := smiBuffer s @ [f], inputLoop := after_send f\<rparr>"
    by (simp split: if_splits)
  with assms(1) AtSend show ?thesis
    by (cases "outputLoop s = LoopDone")
      (simp_all add: fwd_inv_def taken_def held_def after_send_def)
next
  case LoopDone
  with assms show ?thesis by simp
qed

lemma fwd_inv_output:
  assumes "fwd_inv inp s" "fwd_step OutputLoop s = Some s'"
  shows "fwd_inv inp s'"
proof (cases "outputLoop s")
  case AtRecv
  with assms obtain f rest where "smiBuffer s = f # rest"
    and "s' = s\<lparr>smiBuffer := rest, outputLoop := AtSend f\<rparr>"
    by (cases "smiBuffer s") auto
  with assms(1) AtRecv show ?thesis
    by (simp add: fwd_inv_def taken_def held_def)
next
  case (AtSend f)
  with assms have s': "s' = s\<lparr>smiOutput := smiOutput s @ [f], outputLoop := after_send f\<rparr>"
    by simp
  show ?thesis
  proof (cases "inputLoop s = LoopDone")
    case True
    with assms(1) AtSend s' show ?thesis
      by (cases "smiBuffer s = []") (auto simp add: fwd_inv_def taken_def held_def after_send_def)
  next
    case False
    with assms(1) AtSend s' show ?thesis
      by (simp add: fwd_inv_def taken_def held_def after_send_def)
  qed
next
  case LoopDone
  with assms show ?thesis by simp
qed

lemma fwd_inv_step: "fwd_inv inp s \<Longrightarrow> fwd_step t s = Some s' \<Longrightarrow> fwd_inv inp s'"
  by (cases t) (auto intro: fwd_inv_input fwd_inv_output)

lemma fwd_inv_run: "fwd_inv inp s \<Longrightarrow> fwd_inv inp (fwd_run sched s)"
proof (induction sched arbitrary: s)
  case Nil then show ?case by simp
next
  case (Cons t ts)
  then show ?case by (cases "fwd_step t s") (auto dest: fwd_inv_step)
qed

lemma fwd_inv_returned:
  assumes "fwd_inv inp s" "fwd_returned s"
  shows "is_frame (smiOutput s) \<and> inp = smiOutput s @ smiInput s
    \<and> smiBuffer s = [] \<and> inputLoop s = LoopDone"
proof -
  from assms have out: "outputLoop s = LoopDone" and fr: "is_frame (smiOutput s)"
    by (simp_all add: fwd_inv_def fwd_returned_def)
  have fin: "inputLoop s = LoopDone"
  proof (rule ccontr)
    assume "inputLoop s \<noteq> LoopDone"
    with assms(1) have "open_flits (smiOutput s)" by (simp add: fwd_inv_def)
    with fr show False by (simp add: is_frame_not_open)
  qed
  from assms(1) out fin have tk: "is_frame (smiOutput s @ smiBuffer s)"
    and eq: "smiOutput s @ smiBuffer s @ smiInput s = inp"
    by (simp_all add: fwd_inv_def taken_def held_def)
  have "smiBuffer s = []"
  proof (rule ccontr)
    assume "smiBuffer s \<noteq> []"
    with tk have "open_flits (smiOutput s)" by simp
    with fr show False by (simp add: is_frame_not_open)
  qed
  with fr eq fin show ?thesis by simp
qed

lemma fwd_step_measure: "fwd_step t s = Some s' \<Longrightarrow> fwd_measure s' < fwd_measure s"
  by (cases t; cases "inputLoop s"; cases "outputLoop s"; cases "smiInput s"; cases "smiBuffer s")
    (auto simp: fwd_measure_def pc_weight_def after_send_def split: if_splits)

lemma fwd_progress:
  assumes "fwd_inv (frame @ rest) s" "is_frame frame" "\<not> fwd_returned s"
  shows "\<exists>t s'. fwd_step t s = Some s'"
proof (cases "outputLoop s")
  case (AtSend f)
  then have "fwd_step OutputLoop s \<noteq> None" by simp
  then show ?thesis by blast
next
  case LoopDone
  with assms(3) show ?thesis by (simp add: fwd_returned_def)
next
  case AtRecv
  show ?thesis
  proof (cases "smiBuffer s")
    case (Cons f fs)
    with AtRecv have "fwd_step OutputLoop s \<noteq> None" by simp
    then show ?thesis by blast
  next
    case Nil
    show ?thesis
    proof (cases "inputLoop s")
      case (AtSend f)
      with Nil have "fwd_step InputLoop s \<noteq> None" by (simp add: smiBufferCap_def)
      then show ?thesis by blast
    next
      case LoopDone
      with assms(1) AtRecv Nil have "is_frame (smiOutput s)" "open_flits (smiOutput s)"
        by (simp_all add: fwd_inv_def taken_def held_def)
      then show ?thesis by (simp add: is_frame_not_open)
    next
      case r: AtRecv
      have "smiInput s \<noteq> []"
      proof
        assume e: "smiInput s = []"
        from assms(1) r AtRecv Nil e have eq: "smiOutput s = frame @ rest"
          by (simp add: fwd_inv_def taken_def held_def)
        from assms(1) r AtRecv Nil have "open_flits (smiOutput s)"
          by (simp add: fwd_inv_def taken_def held_def)
        with eq have "open_flits frame" by simp
        with assms(2) show False by (simp add: is_frame_not_open)
      qed
      with r have "fwd_step InputLoop s \<noteq> None" by (cases "smiInput s") simp_all
      then show ?thesis by blast
    qed
  qed
qed

lemma assembleIn_frame:
  "open_flits xs \<Longrightarrow> Eofc t \<noteq> 0 \<Longrightarrow> length buf + length xs < smiBufferCap
   \<Longrightarrow> assembleIn (xs @ t # rest) buf = Some (rest, buf @ xs @ [t])"
  by (induction xs arbitrary: buf) simp_all

lemma assembleOut_frame:
  "open_flits xs \<Longrightarrow> Eofc t \<noteq> 0
   \<Longrightarrow> assembleOut (xs @ t # rest) out = Some (rest, out @ xs @ [t])"
  by (induction xs arbitrary: out) simp_all

lemma assembleIn_sound:
  "assembleIn inp buf = Some (unread, buf')
   \<Longrightarrow> \<exists>fr. is_frame fr \<and> buf' = buf @ fr \<and> inp = fr @ unread"
proof (induction inp arbitrary: buf)
  case Nil then show ?case by simp
next
  case (Cons f fs)
  show ?case
  proof (cases "Eofc f = 0")
    case True
    with Cons.prems have "assembleIn fs (buf @ [f]) = Some (unread, buf')"
      by (simp split: if_splits)
    from Cons.IH [OF this] obtain fr where "is_frame fr" "buf' = (buf @ [f]) @ fr" "fs = fr @ unread"
      by blast
    with True have "is_frame (f # fr) \<and> buf' = buf @ f # fr \<and> f # fs = (f # fr) @ unread"
      by auto
    then show ?thesis by blast
  next
    case False
    with Cons.prems have "is_frame [f] \<and> buf' = buf @ [f] \<and> f # fs = [f] @ unread"
      by (simp split: if_splits)
    then show ?thesis by blast
  qed
qed

lemma assembleOut_sound:
  "assembleOut buf out = Some (buf', out')
   \<Longrightarrow> \<exists>fr. is_frame fr \<and> out' = out @ fr \<and> buf = fr @ buf'"
proof (induction buf arbitrary: out)
  case Nil then show ?case by simp
next
  case (Cons f fs)
  show ?case
  proof (cases "Eofc f = 0")
    case True
    with Cons.prems have "assembleOut fs (out @ [f]) = Some (buf', out')"
      by simp
    from Cons.IH [OF this] obtain fr where "is_frame fr" "out' = (out @ [f]) @ fr" "fs = fr @ buf'"
      by blast
    with True have "is_frame (f # fr) \<and> out' = out @ f # fr \<and> f # fs = (f # fr) @ buf'"
      by auto
    then show ?thesis by blast
  next
    case False
    with Cons.prems have "is_frame [f] \<and> out' = out @ [f] \<and> f # fs = [f] @ buf'"
      by simp
    then show ?thesis by blast
  qed
qed

lemma AssembleFrame64_sound:
  assumes "AssembleFrame64 inp = Some (unread, out)"
  shows "is_frame out \<and> inp = out @ unread"
proof -
  from assms obtain buf buf' where i: "assembleIn inp [] = Some (unread, buf)"
    and o: "assembleOut buf [] = Some (buf', out)"
    by (auto simp: AssembleFrame64_def split: option.splits)
  from assembleIn_sound [OF i] have fb: "is_frame buf" and inp: "inp = buf @ unread" by auto
  from assembleOut_sound [OF o] have fo: "is_frame out" and buf: "buf = out @ buf'" by auto
  from buf have "out @ buf' = buf @ []" by simp
  from frame_prefix_unique [OF fo fb this] have "out = buf" ..
  with fo inp show ?thesis by simp
qed

lemma AssembleFrame64_frame:
  assumes "is_frame frame" "length frame \<le> smiBufferCap"
  shows "AssembleFrame64 (frame @ rest) = Some (rest, frame)"
proof -
  from assms(1) obtain xs t where fr: "frame = xs @ [t]" "open_flits xs" "Eofc t \<noteq> 0"
    by (auto simp: is_frame_iff)
  with assms(2) have "assembleIn (xs @ t # rest) [] = Some (rest, [] @ xs @ [t])"
    by (intro assembleIn_frame) simp_all
  moreover from fr have "assembleOut (xs @ t # []) [] = Some ([], [] @ xs @ [t])"
    by (intro assembleOut_frame) simp_all
  ultimately show ?thesis using fr by (simp add: AssembleFrame64_def)
qed

lemma fwd_run_append: "fwd_run (xs @ ys) s = fwd_run ys (fwd_run xs s)"
proof (induction xs arbitrary: s)
  case Nil then show ?case by simp
next
  case (Cons t ts)
  then show ?case by (cases "fwd_step t s") simp_all
qed

lemma fwd_completes:
  assumes "is_frame frame"
  shows "fwd_inv (frame @ rest) s \<Longrightarrow> \<exists>later. fwd_returned (fwd_run later s)"
proof (induction "fwd_measure s" arbitrary: s rule: less_induct)
  case less
  show ?case
  proof (cases "fwd_returned s")
    case True
    then have "fwd_returned (fwd_run [] s)" by simp
    then show ?thesis by blast
  next
    case False
    from fwd_progress [OF less.prems assms False] obtain t s' where st: "fwd_step t s = Some s'"
      by blast
    from fwd_step_measure [OF st] have m: "fwd_measure s' < fwd_measure s" .
    from fwd_inv_step [OF less.prems st] have "fwd_inv (frame @ rest) s'" .
    from less.hyps [OF m this] obtain later where "fwd_returned (fwd_run later s')" by blast
    with st have "fwd_returned (fwd_run (t # later) s)" by simp
    then show ?thesis by blast
  qed
qed

lemma fwd_result:
  assumes "is_frame frame" "fwd_returned (fwd_run sched (fwd_init (frame @ rest)))"
  shows "ForwardFrame64 sched (frame @ rest) = Some (rest, frame)"
proof -
  let ?s = "fwd_run sched (fwd_init (frame @ rest))"
  have "fwd_inv (frame @ rest) ?s" by (simp add: fwd_inv_run fwd_inv_init)
  from fwd_inv_returned [OF this assms(2)]
  have "is_frame (smiOutput ?s)" "frame @ rest = smiOutput ?s @ smiInput ?s" by simp_all
  then have "smiOutput ?s = frame \<and> smiInput ?s = rest"
    using frame_prefix_unique [of "smiOutput ?s" frame "smiInput ?s" rest] assms(1)
    by metis
  with assms(2) show ?thesis by (simp add: ForwardFrame64_def)
qed

lemma fwd_stays:
  assumes "fwd_step InputLoop s = None" "fwd_step OutputLoop s = None"
  shows "fwd_run later s = s"
proof (induction later)
  case Nil then show ?case by simp
next
  case (Cons t ts)
  with assms show ?case by (cases t) simp_all
qed

text \<open>
  C10: on an input that starts with one well-formed frame of at most 34 flits, both
  relays write exactly the flits of that frame, in order and unchanged, and leave exactly
  the rest of the input unread. \<open>AssembleFrame64\<close> returns with that result. For
  \<open>ForwardFrame64\<close> the result is the same under every schedule of its two loops:
  whenever it has returned, that is its result; any run so far can be continued to one
  that returns; as long as it has not returned one of the loops can move; and every
  move lowers \<open>fwd_measure\<close>, so every run ends, and it ends returned.
\<close>

theorem relay_equivalence:
  assumes "is_frame frame" and "length frame \<le> 34"
  shows "AssembleFrame64 (frame @ rest) = Some (rest, frame)
    \<and> (\<forall>sched. ForwardFrame64 sched (frame @ rest) = None
          \<or> ForwardFrame64 sched (frame @ rest) = Some (rest, frame))
    \<and> (\<forall>sched. \<exists>later. ForwardFrame64 (sched @ later) (frame @ rest) = Some (rest, frame))
    \<and> (\<forall>sched. ForwardFrame64 sched (frame @ rest) = None
          \<longrightarrow> (\<exists>t s'. fwd_step t (fwd_run sched (fwd_init (frame @ rest))) = Some s'))
    \<and> (\<forall>t s s'. fwd_step t s = Some s' \<longrightarrow> fwd_measure s' < fwd_measure s)"
proof (intro conjI allI impI)
  show "AssembleFrame64 (frame @ rest) = Some (rest, frame)"
    using assms by (simp add: AssembleFrame64_frame smiBufferCap_def)
next
  fix sched
  show "ForwardFrame64 sched (frame @ rest) = None
      \<or> ForwardFrame64 sched (frame @ rest) = Some (rest, frame)"
  proof (cases "fwd_returned (fwd_run sched (fwd_init (frame @ rest)))")
    case True
    from fwd_result [OF assms(1) this] show ?thesis by simp
  next
    case False
    then show ?thesis by (simp add: ForwardFrame64_def)
  qed
next
  fix sched
  let ?s = "fwd_run sched (fwd_init (frame @ rest))"
  have "fwd_inv (frame @ rest) ?s" by (simp add: fwd_inv_run fwd_inv_init)
  from fwd_completes [OF assms(1) this] obtain later where "fwd_returned (fwd_run later ?s)"
    by blast
  then have "fwd_returned (fwd_run (sched @ later) (fwd_init (frame @ rest)))"
    by (simp add: fwd_run_append)
  from fwd_result [OF assms(1) this]
  show "\<exists>later. ForwardFrame64 (sched @ later) (frame @ rest) = Some (rest, frame)" by blast
next
  fix sched
  let ?s = "fwd_run sched (fwd_init (frame @ rest))"
  assume "ForwardFrame64 sched (frame @ rest) = None"
  then have n: "\<not> fwd_returned ?s" by (simp add: ForwardFrame64_def split: if_splits)
  have "fwd_inv (frame @ rest) ?s" by (simp add: fwd_inv_run fwd_inv_init)
  from fwd_progress [OF this assms(1) n] show "\<exists>t s'. fwd_step t ?s = Some s'" .
next
  fix t s s' assume "fwd_step t s = Some s'"
  then show "fwd_measure s' < fwd_measure s" by (rule fwd_step_measure)
qed

theorem relay_equivalence_witness:
  "is_frame [flitA, flitB] \<and> length [flitA, flitB] \<le> 34
   \<and> AssembleFrame64 ([flitA, flitB] @ [flitC]) = Some ([flitC], [flitA, flitB])
   \<and> ForwardFrame64 [InputLoop, InputLoop, OutputLoop, InputLoop, OutputLoop,
        InputLoop, OutputLoop, OutputLoop] ([flitA, flitB] @ [flitC])
       = Some ([flitC], [flitA, flitB])
   \<and> ForwardFrame64 [InputLoop, InputLoop, OutputLoop] ([flitA, flitB] @ [flitC]) = None"
proof -
  have f: "is_frame [flitA, flitB]" by (simp add: flitA_def flitB_def)
  have l: "length [flitA, flitB] \<le> 34" by simp
  have r: "ForwardFrame64 [InputLoop, InputLoop, OutputLoop, InputLoop, OutputLoop,
        InputLoop, OutputLoop, OutputLoop] ([flitA, flitB] @ [flitC]) \<noteq> None"
    by (simp add: ForwardFrame64_def fwd_returned_def fwd_init_def after_send_def
        smiBufferCap_def flitA_def flitB_def)
  have n: "ForwardFrame64 [InputLoop, InputLoop, OutputLoop] ([flitA, flitB] @ [flitC]) = None"
    by (simp add: ForwardFrame64_def fwd_returned_def fwd_init_def after_send_def
        smiBufferCap_def flitA_def flitB_def)
  note th = relay_equivalence [OF f l, of "[flitC]"]
  from th have a: "AssembleFrame64 ([flitA, flitB] @ [flitC]) = Some ([flitC], [flitA, flitB])"
    by (rule conjunct1)
  from th [THEN conjunct2, THEN conjunct1, THEN spec, of "[InputLoop, InputLoop, OutputLoop,
      InputLoop, OutputLoop, InputLoop, OutputLoop, OutputLoop]"] r
  have "ForwardFrame64 [InputLoop, InputLoop, OutputLoop, InputLoop, OutputLoop,
        InputLoop, OutputLoop, OutputLoop] ([flitA, flitB] @ [flitC])
       = Some ([flitC], [flitA, flitB])"
    by (elim disjE) simp_all
  with f l a n show ?thesis by (intro conjI)
qed

lemma assembleIn_overflow:
  "open_flits xs \<Longrightarrow> smiBufferCap \<le> length buf + length xs
   \<Longrightarrow> assembleIn (xs @ t # rest) buf = None"
  by (induction xs arbitrary: buf) simp_all

lemma AssembleFrame64_overflow:
  assumes "is_frame frame" "smiBufferCap < length frame"
  shows "AssembleFrame64 (frame @ rest) = None"
proof -
  from assms(1) obtain xs t where fr: "frame = xs @ [t]" "open_flits xs"
    by (auto simp: is_frame_iff)
  with assms(2) have "assembleIn (xs @ t # rest) [] = None"
    by (intro assembleIn_overflow) simp_all
  with fr show ?thesis by (simp add: AssembleFrame64_def)
qed

text \<open>
  C8, as the code has it: each relay forwards one frame and returns. Given an input that
  begins with a well-formed frame, \<open>AssembleFrame64\<close> returns with exactly that frame
  written and the rest unread when the frame has at most 34 flits (a longer frame never
  fits its buffer, and it never returns). \<open>ForwardFrame64\<close> returns under every schedule:
  any run so far can be continued to the return, as long as it has not returned one of its
  loops can move, and every move lowers \<open>fwd_measure\<close>. Once it has returned, the frame
  is written, the rest is unread, neither loop can move again, and the result stays the
  same however long the schedule goes on.
\<close>

theorem relays_single_frame:
  assumes "is_frame frame"
  shows "(length frame \<le> 34 \<longrightarrow> AssembleFrame64 (frame @ rest) = Some (rest, frame))
    \<and> (34 < length frame \<longrightarrow> AssembleFrame64 (frame @ rest) = None)
    \<and> (\<forall>sched. \<exists>later. ForwardFrame64 (sched @ later) (frame @ rest) = Some (rest, frame))
    \<and> (\<forall>sched. ForwardFrame64 sched (frame @ rest) = None
          \<longrightarrow> (\<exists>t s'. fwd_step t (fwd_run sched (fwd_init (frame @ rest))) = Some s'))
    \<and> (\<forall>t s s'. fwd_step t s = Some s' \<longrightarrow> fwd_measure s' < fwd_measure s)
    \<and> (\<forall>sched. ForwardFrame64 sched (frame @ rest) \<noteq> None \<longrightarrow>
          ForwardFrame64 sched (frame @ rest) = Some (rest, frame)
          \<and> (\<forall>t. fwd_step t (fwd_run sched (fwd_init (frame @ rest))) = None)
          \<and> (\<forall>later. ForwardFrame64 (sched @ later) (frame @ rest) = Some (rest, frame)))"
proof (intro conjI allI impI)
  assume "length frame \<le> 34"
  with assms show "AssembleFrame64 (frame @ rest) = Some (rest, frame)"
    by (simp add: AssembleFrame64_frame smiBufferCap_def)
next
  assume "34 < length frame"
  with assms show "AssembleFrame64 (frame @ rest) = None"
    by (simp add: AssembleFrame64_overflow smiBufferCap_def)
next
  fix sched
  let ?s = "fwd_run sched (fwd_init (frame @ rest))"
  have "fwd_inv (frame @ rest) ?s" by (simp add: fwd_inv_run fwd_inv_init)
  from fwd_completes [OF assms this] obtain later where "fwd_returned (fwd_run later ?s)"
    by blast
  then have "fwd_returned (fwd_run (sched @ later) (fwd_init (frame @ rest)))"
    by (simp add: fwd_run_append)
  from fwd_result [OF assms this]
  show "\<exists>later. ForwardFrame64 (sched @ later) (frame @ rest) = Some (rest, frame)" by blast
next
  fix sched
  let ?s = "fwd_run sched (fwd_init (frame @ rest))"
  assume "ForwardFrame64 sched (frame @ rest) = None"
  then have n: "\<not> fwd_returned ?s" by (simp add: ForwardFrame64_def split: if_splits)
  have "fwd_inv (frame @ rest) ?s" by (simp add: fwd_inv_run fwd_inv_init)
  from fwd_progress [OF this assms n] show "\<exists>t s'. fwd_step t ?s = Some s'" .
next
  fix t s s' assume "fwd_step t s = Some s'"
  then show "fwd_measure s' < fwd_measure s" by (rule fwd_step_measure)
next
  fix sched
  let ?s = "fwd_run sched (fwd_init (frame @ rest))"
  assume "ForwardFrame64 sched (frame @ rest) \<noteq> None"
  then have r: "fwd_returned ?s" by (simp add: ForwardFrame64_def split: if_splits)
  from fwd_result [OF assms r]
  show res: "ForwardFrame64 sched (frame @ rest) = Some (rest, frame)" .
  have "fwd_inv (frame @ rest) ?s" by (simp add: fwd_inv_run fwd_inv_init)
  from fwd_inv_returned [OF this r] have fin: "inputLoop ?s = LoopDone" by simp
  from r fin have none: "fwd_step InputLoop ?s = None" "fwd_step OutputLoop ?s = None"
    by (simp_all add: fwd_returned_def)
  {
    fix t from none show "fwd_step t ?s = None" by (cases t) simp_all
  }
  {
    fix later
    from fwd_stays [OF none] have "fwd_run (sched @ later) (fwd_init (frame @ rest)) = ?s"
      by (simp add: fwd_run_append)
    with r have "fwd_returned (fwd_run (sched @ later) (fwd_init (frame @ rest)))" by simp
    from fwd_result [OF assms this]
    show "ForwardFrame64 (sched @ later) (frame @ rest) = Some (rest, frame)" .
  }
qed

theorem relays_single_frame_witness:
  "is_frame [flitA, flitB]
   \<and> AssembleFrame64 ([flitA, flitB] @ [flitC, flitD]) = Some ([flitC, flitD], [flitA, flitB])
   \<and> ForwardFrame64 ([InputLoop, InputLoop, OutputLoop, OutputLoop, InputLoop, InputLoop,
        OutputLoop, OutputLoop] @ [InputLoop, OutputLoop, InputLoop])
        ([flitA, flitB] @ [flitC, flitD]) = Some ([flitC, flitD], [flitA, flitB])
   \<and> fwd_step InputLoop (fwd_run [InputLoop, InputLoop, OutputLoop, OutputLoop, InputLoop,
        InputLoop, OutputLoop, OutputLoop] (fwd_init ([flitA, flitB] @ [flitC, flitD]))) = None"
proof -
  have f: "is_frame [flitA, flitB]" by (simp add: flitA_def flitB_def)
  have r: "ForwardFrame64 [InputLoop, InputLoop, OutputLoop, OutputLoop, InputLoop,
        InputLoop, OutputLoop, OutputLoop] ([flitA, flitB] @ [flitC, flitD]) \<noteq> None"
    by (simp add: ForwardFrame64_def fwd_returned_def fwd_init_def after_send_def
        smiBufferCap_def flitA_def flitB_def)
  note th = relays_single_frame [OF f, of "[flitC, flitD]"]
  from th have "length [flitA, flitB] \<le> 34
      \<longrightarrow> AssembleFrame64 ([flitA, flitB] @ [flitC, flitD]) = Some ([flitC, flitD], [flitA, flitB])"
    by (rule conjunct1)
  then have a: "AssembleFrame64 ([flitA, flitB] @ [flitC, flitD])
      = Some ([flitC, flitD], [flitA, flitB])" by simp
  from th have "\<forall>sched. ForwardFrame64 sched ([flitA, flitB] @ [flitC, flitD]) \<noteq> None \<longrightarrow>
          ForwardFrame64 sched ([flitA, flitB] @ [flitC, flitD]) = Some ([flitC, flitD], [flitA, flitB])
          \<and> (\<forall>t. fwd_step t (fwd_run sched (fwd_init ([flitA, flitB] @ [flitC, flitD]))) = None)
          \<and> (\<forall>later. ForwardFrame64 (sched @ later) ([flitA, flitB] @ [flitC, flitD])
                = Some ([flitC, flitD], [flitA, flitB]))"
    by (elim conjE)
  from this [THEN spec, THEN mp, OF r]
  have n: "\<forall>t. fwd_step t (fwd_run [InputLoop, InputLoop, OutputLoop, OutputLoop, InputLoop,
        InputLoop, OutputLoop, OutputLoop] (fwd_init ([flitA, flitB] @ [flitC, flitD]))) = None"
    and l: "\<forall>later. ForwardFrame64 ([InputLoop, InputLoop, OutputLoop, OutputLoop, InputLoop,
        InputLoop, OutputLoop, OutputLoop] @ later) ([flitA, flitB] @ [flitC, flitD])
                = Some ([flitC, flitD], [flitA, flitB])"
    by blast+
  from f a n [THEN spec, of InputLoop] l [THEN spec, of "[InputLoop, OutputLoop, InputLoop]"]
  show ?thesis by (intro conjI)
qed

text \<open>
  C8 as stated fails: given two one-flit frames, both relays return after the first and
  never read the second.
\<close>

theorem relays_repeat_counterexample:
  "AssembleFrame64 [flitC, flitD] = Some ([flitD], [flitC])
   \<and> ForwardFrame64 [InputLoop, InputLoop, OutputLoop, OutputLoop] [flitC, flitD]
       = Some ([flitD], [flitC])
   \<and> fwd_run [InputLoop, InputLoop, OutputLoop, OutputLoop] (fwd_init [flitC, flitD])
       = \<lparr>smiInput = [flitD], smiBuffer = [], smiOutput = [flitC],
          inputLoop = LoopDone, outputLoop = LoopDone\<rparr>
   \<and> fwd_step InputLoop \<lparr>smiInput = [flitD], smiBuffer = [], smiOutput = [flitC],
        inputLoop = LoopDone, outputLoop = LoopDone\<rparr> = None
   \<and> fwd_step OutputLoop \<lparr>smiInput = [flitD], smiBuffer = [], smiOutput = [flitC],
        inputLoop = LoopDone, outputLoop = LoopDone\<rparr> = None"
  by (simp add: AssembleFrame64_def ForwardFrame64_def fwd_returned_def fwd_init_def
      after_send_def smiBufferCap_def flitC_def flitD_def)

section \<open>Port manager\<close>

lemma tagInitLoop_0: "tagInitLoop 0 [] = Some [0, 1, 2, 3]"
  by code_simp

lemma pm_init_eq: "pm_init = Some \<lparr>tagTableLower = [0, 0, 0, 0], tagTableUpper = [0, 0, 0, 0],
    tagFifo = [0, 1, 2, 3], reqFlow = RqRecvHeader, respFlow = RsRecvHeader\<rparr>"
proof -
  have "replicate 4 (0::8 word) = [0, 0, 0, 0]" by (simp add: numeral_eq_Suc)
  then show ?thesis by (simp add: pm_init_def tagInitLoop_0)
qed

lemma sent_tagged_simps [simp]:
  "sent_tagged [] = []" "sent_tagged (a # acts) = tagged_of a @ sent_tagged acts"
  by (simp_all add: sent_tagged_def)

lemma sent_upstream_simps [simp]:
  "sent_upstream [] = []" "sent_upstream (a # acts) = upstream_of a @ sent_upstream acts"
  by (simp_all add: sent_upstream_def)

lemma req_inv_step:
  assumes "req_inv sent s m" "pm_step p s a = Inr s'"
  shows "req_inv (sent @ tagged_of a) s' (spec_step p m a)"
proof (cases a)
  case (UpstreamRequest f)
  with assms show ?thesis
    by (cases "reqFlow s")
      (auto simp: req_inv_def tagged_of_def req_held_def req_expect_def req_pending_def)
next
  case (TagLease t)
  with assms show ?thesis
    by (cases "reqFlow s"; cases "tagFifo s")
      (auto simp: req_inv_def tagged_of_def req_held_def req_expect_def req_pending_def
        spec_tagged_header_def split: if_splits)
next
  case (TransferReq q)
  with assms show ?thesis
    by (cases "reqFlow s")
      (auto simp: req_inv_def tagged_of_def req_held_def req_expect_def req_pending_def
        split: if_splits)
next
  case (TaggedRequest f)
  with assms show ?thesis
    by (cases "reqFlow s")
      (auto simp: req_inv_def tagged_of_def req_held_def req_expect_def req_pending_def
        req_next_def split: if_splits)
next
  case (TaggedResponse r)
  with assms show ?thesis
    by (cases "respFlow s")
      (auto simp: req_inv_def tagged_of_def Let_def spec_response_header_def split: if_splits)
next
  case (TagRelease t)
  with assms show ?thesis
    by (cases "respFlow s") (auto simp: req_inv_def tagged_of_def split: if_splits)
next
  case (UpstreamResponse f)
  with assms show ?thesis
    by (cases "respFlow s") (auto simp: req_inv_def tagged_of_def split: if_splits)
qed

lemma req_inv_run:
  "req_inv sent s m \<Longrightarrow> pm_run p s acts = Inr s'
   \<Longrightarrow> req_inv (sent @ sent_tagged acts) s' (foldl (spec_step p) m acts)"
proof (induction acts arbitrary: sent s m)
  case Nil then show ?case by simp
next
  case (Cons a acts)
  from Cons.prems(2) obtain s1 where s1: "pm_step p s a = Inr s1" "pm_run p s1 acts = Inr s'"
    by (auto split: sum.splits)
  from req_inv_step [OF Cons.prems(1) s1(1)] have "req_inv (sent @ tagged_of a) s1 (spec_step p m a)" .
  from Cons.IH [OF this s1(2)] show ?case by simp
qed

lemma upstream_of_simps [simp]:
  "upstream_of (UpstreamRequest f) = []" "upstream_of (TagLease t) = []"
  "upstream_of (TransferReq q) = []" "upstream_of (TaggedRequest f) = []"
  "upstream_of (TaggedResponse f) = []" "upstream_of (TagRelease t) = []"
  "upstream_of (UpstreamResponse f) = [f]"
  by (simp_all add: upstream_of_def)

lemma resp_inv_cong:
  assumes "resp_inv sent s m"
    and "expUpstream m' = expUpstream m" "expectRespHeader m' = expectRespHeader m"
    and "inflight m' = inflight m" "issued m' = issued m"
    and "matched m' = matched m" "conforms m' = conforms m"
    and "\<exists>pc. s' = s\<lparr>reqFlow := pc\<rparr>"
  shows "resp_inv sent s' m'"
proof -
  from assms(8) obtain pc where s': "s' = s\<lparr>reqFlow := pc\<rparr>" ..
  have t: "table_inv s' m' = table_inv s m"
    by (simp add: table_inv_def s' assms(5))
  have a: "all_tags s' m' = all_tags s m"
    by (simp add: all_tags_def s' assms(4))
  from assms(1) show ?thesis
    unfolding resp_inv_def t a assms(2,3,4,5,6,7) by (simp add: s')
qed

lemma req_step_frame:
  assumes "pm_step p s a = Inr s'"
    and "a = UpstreamRequest f \<or> a = TransferReq q \<or> a = TaggedRequest f"
  shows "\<exists>pc. s' = s\<lparr>reqFlow := pc\<rparr>"
  using assms by (cases "reqFlow s") (auto split: if_splits)

lemma resp_inv_lease:
  assumes "resp_inv sent s m" "req_inv sentT s m" "pm_step p s (TagLease t) = Inr s'"
  shows "resp_inv sent s' (spec_step p m (TagLease t))"
proof -
  from assms(3) obtain h rest where pc: "reqFlow s = RqLease h" and fifo: "tagFifo s = t # rest"
    and lt: "unat t < length (tagTableLower s)" "unat t < length (tagTableUpper s)"
    and s': "s' = s\<lparr>tagFifo := rest,
        tagTableLower := (tagTableLower s)[unat t := Data h ! 2],
        tagTableUpper := (tagTableUpper s)[unat t := Data h ! 3],
        reqFlow := RqSendTransfer (h\<lparr>Data := (Data h)[2 := p, 3 := t]\<rparr>)\<rparr>"
    by (cases "reqFlow s"; cases "tagFifo s") (auto split: if_splits)
  from assms(2) pc have pend: "pendingHeader m = Some h"
    by (simp add: req_inv_def req_pending_def)
  let ?m = "m\<lparr>pendingHeader := None, issued := (t, h) # issued m,
            inflight := inflight m @ [(t, h)],
            expTagged := expTagged m @ [spec_tagged_header p t h]\<rparr>"
  from pend have m': "spec_step p m (TagLease t) = ?m" by simp
  from assms(1) have len: "length (tagTableLower s) = 4" "length (tagTableUpper s) = 4"
    and tab: "table_inv s m" by (simp_all add: resp_inv_def)
  have tab': "table_inv s' ?m"
    unfolding table_inv_def
  proof (intro allI impI)
    fix t' h' assume look: "map_of (issued ?m) t' = Some h'"
    show "unat t' < 4 \<and> tagTableLower s' ! unat t' = Data h' ! 2
        \<and> tagTableUpper s' ! unat t' = Data h' ! 3"
    proof (cases "t' = t")
      case True
      with look have "h' = h" by simp
      with True lt len show ?thesis by (simp add: s')
    next
      case False
      then have ne: "unat t \<noteq> unat t'" by (simp add: word_unat_eq_iff)
      from False look have "map_of (issued m) t' = Some h'" by simp
      with tab have "unat t' < 4 \<and> tagTableLower s ! unat t' = Data h' ! 2
        \<and> tagTableUpper s ! unat t' = Data h' ! 3" by (simp add: table_inv_def)
      with ne show ?thesis by (simp add: s')
    qed
  qed
  have tags: "all_tags s' ?m = map fst (inflight m) @ [t] @ rest @ resp_tag (respFlow s)"
    by (simp add: all_tags_def s')
  have old: "all_tags s m = map fst (inflight m) @ (t # rest) @ resp_tag (respFlow s)"
    by (simp add: all_tags_def fifo)
  have cf: "conforms m \<longrightarrow> distinct (all_tags s' ?m) \<and> set (all_tags s' ?m) = {0, 1, 2, 3}
      \<and> list_all (\<lambda>e. map_of (issued ?m) (fst e) = Some (snd e)) (inflight ?m)
      \<and> matched m"
  proof
    assume "conforms m"
    with assms(1) have d: "distinct (all_tags s m)" and st: "set (all_tags s m) = {0, 1, 2, 3}"
      and li: "list_all (\<lambda>e. map_of (issued m) (fst e) = Some (snd e)) (inflight m)"
      and mt: "matched m"
      by (simp_all add: resp_inv_def)
    have "set (all_tags s' ?m) = set (all_tags s m)"
      unfolding tags old by auto
    moreover have "distinct (all_tags s' ?m) = distinct (all_tags s m)"
      unfolding tags old by auto
    moreover from d have "t \<notin> fst ` set (inflight m)" unfolding old by auto
    with li have "list_all (\<lambda>e. map_of (issued ?m) (fst e) = Some (snd e)) (inflight ?m)"
      by (auto simp: list_all_iff)
    ultimately show "distinct (all_tags s' ?m) \<and> set (all_tags s' ?m) = {0, 1, 2, 3}
      \<and> list_all (\<lambda>e. map_of (issued ?m) (fst e) = Some (snd e)) (inflight ?m)
      \<and> matched m"
      using d st mt by (simp only: simp_thms)
  qed
  from assms(1) have "expectRespHeader m = resp_expect (respFlow s)"
    and "matched m \<longrightarrow> expUpstream m = sent @ resp_held (respFlow s)"
    by (simp_all add: resp_inv_def)
  with len tab' cf show ?thesis
    unfolding m' by (simp add: resp_inv_def s')
qed

lemma resp_inv_header:
  assumes "resp_inv sent s m" "respFlow s = RsRecvHeader"
    and "pm_step p s (TaggedResponse r) = Inr s'"
  shows "resp_inv sent s' (spec_step p m (TaggedResponse r))"
proof -
  let ?t = "Data r ! 3"
  from assms(1,2) have ex: "expectRespHeader m" by (simp add: resp_inv_def resp_expect_def)
  then have m': "spec_step p m (TaggedResponse r) = spec_response_header m r" by simp
  let ?m = "spec_response_header m r"
  let ?r = "r\<lparr>Data := (Data r)[2 := tagTableLower s ! unat ?t, 3 := tagTableUpper s ! unat ?t]\<rparr>"
  from assms(2,3) have s': "s' = s\<lparr>respFlow := RsRelease ?r ?t\<rparr>"
    by (auto simp: Let_def split: if_splits)
  from assms(1) have len: "length (tagTableLower s) = 4" "length (tagTableUpper s) = 4"
    and tab: "table_inv s m" by (simp_all add: resp_inv_def)
  from tab have tab': "table_inv s' ?m"
    by (simp add: table_inv_def s' spec_response_header_def)
  have str: "matched ?m \<longrightarrow> expUpstream ?m = sent @ resp_held (respFlow s')"
  proof
    assume mt: "matched ?m"
    then have "matched m" and "map_of (issued m) ?t \<noteq> None"
      by (simp_all add: spec_response_header_def)
    then obtain h where look: "map_of (issued m) ?t = Some h" by auto
    with tab have "tagTableLower s ! unat ?t = Data h ! 2" "tagTableUpper s ! unat ?t = Data h ! 3"
      by (simp_all add: table_inv_def)
    then have r': "?r = spec_restored_header h r" by (simp add: spec_restored_header_def)
    from assms(1,2) \<open>matched m\<close> have "expUpstream m = sent"
      by (simp add: resp_inv_def resp_held_def)
    with look r' show "expUpstream ?m = sent @ resp_held (respFlow s')"
      by (simp add: spec_response_header_def s' resp_held_def)
  qed
  have tags: "all_tags s' ?m = filter (\<lambda>k. k \<noteq> ?t) (map fst (inflight m)) @ tagFifo s @ [?t]"
    by (simp add: all_tags_def s' resp_tag_def filter_map comp_def spec_response_header_def)
  have old: "all_tags s m = map fst (inflight m) @ tagFifo s"
    by (simp add: all_tags_def assms(2) resp_tag_def)
  have cf: "conforms ?m \<longrightarrow> distinct (all_tags s' ?m) \<and> set (all_tags s' ?m) = {0, 1, 2, 3}
      \<and> list_all (\<lambda>e. map_of (issued ?m) (fst e) = Some (snd e)) (inflight ?m)
      \<and> matched ?m"
  proof
    assume c: "conforms ?m"
    then have "conforms m" and tin: "?t \<in> set (map fst (inflight m))"
      by (simp_all add: spec_response_header_def)
    with assms(1) have d: "distinct (all_tags s m)" and st: "set (all_tags s m) = {0, 1, 2, 3}"
      and li: "list_all (\<lambda>e. map_of (issued m) (fst e) = Some (snd e)) (inflight m)"
      and mt: "matched m"
      by (simp_all add: resp_inv_def)
    from tin have "set (all_tags s' ?m) = set (all_tags s m)"
      unfolding tags old by auto
    moreover from d tin have "distinct (all_tags s' ?m)"
      unfolding tags old by auto
    moreover from li have "list_all (\<lambda>e. map_of (issued ?m) (fst e) = Some (snd e)) (inflight ?m)"
      by (simp add: list_all_iff spec_response_header_def)
    moreover from tin li have "map_of (issued m) ?t \<noteq> None"
      by (auto simp: list_all_iff)
    with mt have "matched ?m" by (simp add: spec_response_header_def)
    ultimately show "distinct (all_tags s' ?m) \<and> set (all_tags s' ?m) = {0, 1, 2, 3}
      \<and> list_all (\<lambda>e. map_of (issued ?m) (fst e) = Some (snd e)) (inflight ?m)
      \<and> matched ?m"
      using st by (simp only: simp_thms)
  qed
  have "expectRespHeader ?m = resp_expect (respFlow s')"
    by (simp add: spec_response_header_def s' resp_expect_def)
  with len tab' str cf show ?thesis
    unfolding m' resp_inv_def by (simp add: s')
qed


lemma resp_inv_body:
  assumes "resp_inv sent s m" "respFlow s \<noteq> RsRecvHeader"
    and "pm_step p s (TaggedResponse r) = Inr s'"
  shows "resp_inv sent s' (spec_step p m (TaggedResponse r))"
proof -
  from assms(2,3) have pc: "respFlow s = RsRecvBody" and s': "s' = s\<lparr>respFlow := RsSendBody r\<rparr>"
    by (cases "respFlow s"; simp)+
  from assms(1) pc have "\<not> expectRespHeader m" by (simp add: resp_inv_def resp_expect_def)
  then have m': "spec_step p m (TaggedResponse r)
      = m\<lparr>expUpstream := expUpstream m @ [r], expectRespHeader := (Eofc r \<noteq> 0)\<rparr>"
    by simp
  from assms(1) pc show ?thesis
    unfolding m' s'
    by (simp add: resp_inv_def all_tags_def table_inv_def resp_held_def resp_expect_def
        resp_tag_def)
qed

lemma resp_inv_release:
  assumes "resp_inv sent s m" "pm_step p s (TagRelease t) = Inr s'"
  shows "resp_inv sent s' (spec_step p m (TagRelease t))"
proof -
  from assms(2) obtain h where pc: "respFlow s = RsRelease h t"
    and s': "s' = s\<lparr>tagFifo := tagFifo s @ [t], respFlow := RsSendHeader h\<rparr>"
    by (cases "respFlow s") (auto split: if_splits)
  from assms(1) pc show ?thesis
    unfolding s'
    by (simp add: resp_inv_def all_tags_def table_inv_def resp_held_def resp_expect_def
        resp_tag_def)
qed

lemma resp_inv_send:
  assumes "resp_inv sent s m" "pm_step p s (UpstreamResponse f) = Inr s'"
  shows "resp_inv (sent @ [f]) s' (spec_step p m (UpstreamResponse f))"
proof -
  from assms(2) have pc: "respFlow s = RsSendHeader f \<or> respFlow s = RsSendBody f"
    and s': "s' = s\<lparr>respFlow := resp_next f\<rparr>"
    by (cases "respFlow s"; simp split: if_splits)+
  have rt: "resp_tag (resp_next f) = []" "resp_held (resp_next f) = []"
    "resp_expect (resp_next f) = (Eofc f \<noteq> 0)"
    by (simp_all add: resp_tag_def resp_held_def resp_expect_def resp_next_def)
  from pc have old: "resp_tag (respFlow s) = []" "resp_held (respFlow s) = [f]"
    "resp_expect (respFlow s) = (Eofc f \<noteq> 0)"
    by (auto simp: resp_tag_def resp_held_def resp_expect_def)
  from assms(1) show ?thesis
    unfolding s'
    by (simp add: resp_inv_def all_tags_def table_inv_def rt old)
qed

lemma resp_inv_step:
  assumes "resp_inv sent s m" "req_inv sentT s m" "pm_step p s a = Inr s'"
  shows "resp_inv (sent @ upstream_of a) s' (spec_step p m a)"
proof (cases a)
  case (UpstreamRequest f)
  from req_step_frame [OF assms(3), of f] UpstreamRequest
  have fr: "\<exists>pc. s' = s\<lparr>reqFlow := pc\<rparr>" by blast
  have "resp_inv sent s' (spec_step p m (UpstreamRequest f))"
    by (rule resp_inv_cong [OF assms(1) _ _ _ _ _ _ fr]) simp_all
  then show ?thesis by (simp add: UpstreamRequest)
next
  case (TagLease t)
  from assms(3) have "pm_step p s (TagLease t) = Inr s'" by (simp only: TagLease)
  from resp_inv_lease [OF assms(1,2) this] show ?thesis by (simp add: TagLease)
next
  case (TransferReq q)
  from req_step_frame [OF assms(3), of _ q] TransferReq
  have fr: "\<exists>pc. s' = s\<lparr>reqFlow := pc\<rparr>" by blast
  have "resp_inv sent s' (spec_step p m (TransferReq q))"
    by (rule resp_inv_cong [OF assms(1) _ _ _ _ _ _ fr]) simp_all
  then show ?thesis by (simp add: TransferReq)
next
  case (TaggedRequest f)
  from req_step_frame [OF assms(3), of f] TaggedRequest
  have fr: "\<exists>pc. s' = s\<lparr>reqFlow := pc\<rparr>" by blast
  have "resp_inv sent s' (spec_step p m (TaggedRequest f))"
    by (rule resp_inv_cong [OF assms(1) _ _ _ _ _ _ fr]) simp_all
  then show ?thesis by (simp add: TaggedRequest)
next
  case (TaggedResponse r)
  from assms(3) have st: "pm_step p s (TaggedResponse r) = Inr s'" by (simp only: TaggedResponse)
  show ?thesis
  proof (cases "respFlow s = RsRecvHeader")
    case True
    from resp_inv_header [OF assms(1) True st] show ?thesis by (simp add: TaggedResponse)
  next
    case False
    from resp_inv_body [OF assms(1) False st] show ?thesis by (simp add: TaggedResponse)
  qed
next
  case (TagRelease t)
  from assms(3) have "pm_step p s (TagRelease t) = Inr s'" by (simp only: TagRelease)
  from resp_inv_release [OF assms(1) this] show ?thesis by (simp add: TagRelease)
next
  case (UpstreamResponse f)
  from assms(3) have "pm_step p s (UpstreamResponse f) = Inr s'" by (simp only: UpstreamResponse)
  from resp_inv_send [OF assms(1) this] show ?thesis by (simp add: UpstreamResponse)
qed

lemma pm_inv_run:
  "resp_inv sentU s m \<Longrightarrow> req_inv sentT s m \<Longrightarrow> pm_run p s acts = Inr s'
   \<Longrightarrow> resp_inv (sentU @ sent_upstream acts) s' (foldl (spec_step p) m acts)"
proof (induction acts arbitrary: sentU sentT s m)
  case Nil then show ?case by simp
next
  case (Cons a acts)
  from Cons.prems(3) obtain s1 where s1: "pm_step p s a = Inr s1" "pm_run p s1 acts = Inr s'"
    by (auto split: sum.splits)
  from resp_inv_step [OF Cons.prems(1,2) s1(1)]
  have r: "resp_inv (sentU @ upstream_of a) s1 (spec_step p m a)" .
  from req_inv_step [OF Cons.prems(2) s1(1)]
  have q: "req_inv (sentT @ tagged_of a) s1 (spec_step p m a)" .
  from Cons.IH [OF r q s1(2)] show ?case by simp
qed

lemma inv_init:
  assumes "pm_init = Some s"
  shows "resp_inv [] s spec_init" and "req_inv [] s spec_init"
proof -
  from assms have s: "s = \<lparr>tagTableLower = [0, 0, 0, 0], tagTableUpper = [0, 0, 0, 0],
    tagFifo = [0, 1, 2, 3], reqFlow = RqRecvHeader, respFlow = RsRecvHeader\<rparr>"
    by (simp add: pm_init_eq)
  show "resp_inv [] s spec_init"
    by (simp add: s resp_inv_def spec_init_def all_tags_def table_inv_def resp_held_def
        resp_expect_def resp_tag_def)
  show "req_inv [] s spec_init"
    by (simp add: s req_inv_def spec_init_def req_held_def req_expect_def req_pending_def)
qed

lemma manage_run:
  assumes "manageUpstreamPort p acts = Inr s"
  obtains s0 where "pm_init = Some s0" "pm_run p s0 acts = Inr s"
  using assms by (auto simp: manageUpstreamPort_def split: option.splits)

lemma manage_resp_inv:
  assumes "manageUpstreamPort p acts = Inr s"
  shows "resp_inv (sent_upstream acts) s (spec_run p acts)"
proof -
  from assms(1) obtain s0 where i: "pm_init = Some s0" and r: "pm_run p s0 acts = Inr s"
    by (rule manage_run)
  from pm_inv_run [OF inv_init [OF i] r] show ?thesis
    by (simp add: spec_run_def)
qed

lemma manage_req_inv:
  assumes "manageUpstreamPort p acts = Inr s"
  shows "req_inv (sent_tagged acts) s (spec_run p acts)"
proof -
  from assms(1) obtain s0 where i: "pm_init = Some s0" and r: "pm_run p s0 acts = Inr s"
    by (rule manage_run)
  from req_inv_run [OF inv_init(2) [OF i] r] show ?thesis
    by (simp add: spec_run_def)
qed

lemma safe_step:
  assumes "safe_inv s" "pm_step p s a = Inr s'"
  shows "safe_inv s'"
proof (cases a)
  case (UpstreamRequest f)
  with assms show ?thesis by (cases "reqFlow s") (auto simp: safe_inv_def)
next
  case (TagLease t)
  with assms show ?thesis
    by (cases "reqFlow s"; cases "tagFifo s") (auto simp: safe_inv_def split: if_splits)
next
  case (TransferReq q)
  with assms show ?thesis by (cases "reqFlow s") (auto simp: safe_inv_def split: if_splits)
next
  case (TaggedRequest f)
  with assms show ?thesis by (cases "reqFlow s") (auto simp: safe_inv_def split: if_splits)
next
  case (TaggedResponse r)
  with assms show ?thesis
    by (cases "respFlow s") (auto simp: safe_inv_def resp_tag_def Let_def split: if_splits)
next
  case (TagRelease t)
  with assms show ?thesis
    by (cases "respFlow s") (auto simp: safe_inv_def resp_tag_def split: if_splits)
next
  case (UpstreamResponse f)
  with assms show ?thesis
    by (cases "respFlow s") (auto simp: safe_inv_def resp_tag_def resp_next_def split: if_splits)
qed

lemma safe_run: "safe_inv s \<Longrightarrow> pm_run p s acts = Inr s' \<Longrightarrow> safe_inv s'"
proof (induction acts arbitrary: s)
  case Nil then show ?case by simp
next
  case (Cons a acts)
  from Cons.prems(2) obtain s1 where s1: "pm_step p s a = Inr s1" "pm_run p s1 acts = Inr s'"
    by (auto split: sum.splits)
  from Cons.IH [OF safe_step [OF Cons.prems(1) s1(1)] s1(2)] show ?case .
qed

lemma manage_safe:
  assumes "manageUpstreamPort p acts = Inr s"
  shows "safe_inv s"
proof -
  from assms obtain s0 where i: "pm_init = Some s0" and r: "pm_run p s0 acts = Inr s"
    by (rule manage_run)
  from i have "safe_inv s0" by (auto simp: pm_init_eq safe_inv_def resp_tag_def)
  from safe_run [OF this r] show ?thesis .
qed

lemma fault_iff:
  assumes "safe_inv s"
  shows "pm_step p s a = Inl IndexOutOfRange
    \<longleftrightarrow> (\<exists>r. a = TaggedResponse r \<and> respFlow s = RsRecvHeader \<and> 4 \<le> unat (Data r ! 3))"
proof (cases a)
  case (UpstreamRequest f)
  then show ?thesis by (cases "reqFlow s") auto
next
  case (TagLease t)
  with assms show ?thesis
    by (cases "reqFlow s"; cases "tagFifo s") (auto simp: safe_inv_def)
next
  case (TransferReq q)
  then show ?thesis by (cases "reqFlow s") auto
next
  case (TaggedRequest f)
  then show ?thesis by (cases "reqFlow s") auto
next
  case (TaggedResponse r)
  with assms show ?thesis
    by (cases "respFlow s") (auto simp: safe_inv_def Let_def)
next
  case (TagRelease t)
  then show ?thesis by (cases "respFlow s") auto
next
  case (UpstreamResponse f)
  then show ?thesis by (cases "respFlow s") auto
qed

text \<open>
  C7, as the code has it: in every state a port manager can reach, the only operation
  that faults is the receive of a response header whose byte at offset 3 is 4 or more,
  which indexes the tag tables out of range. The lookups indexed by a leased tag never
  fault, since the pool only ever holds tags below 4. (The arbiter loops and the relays
  index nothing but the constant offsets of a flit.)
\<close>

theorem fault_only_on_tag_out_of_range:
  assumes "manageUpstreamPort portId acts = Inr s"
  shows "pm_step portId s a = Inl IndexOutOfRange
    \<longleftrightarrow> (\<exists>r. a = TaggedResponse r \<and> respFlow s = RsRecvHeader \<and> 4 \<le> unat (Data r ! 3))"
  using manage_safe [OF assms] by (rule fault_iff)

lemma four_in_flight_state:
  "manageUpstreamPort 1 four_in_flight = Inr \<lparr>tagTableLower = [0xA0, 0xA1, 0xA2, 0xA3],
     tagTableUpper = [0xB0, 0xB1, 0xB2, 0xB3], tagFifo = [],
     reqFlow = RqRecvHeader, respFlow = RsRecvHeader\<rparr>"
  by code_simp

lemma four_answered_state:
  "manageUpstreamPort 1 four_answered = Inr \<lparr>tagTableLower = [0xA0, 0xA1, 0xA2, 0xA3],
     tagTableUpper = [0xB0, 0xB1, 0xB2, 0xB3], tagFifo = [2, 0, 3, 1],
     reqFlow = RqRecvHeader, respFlow = RsRecvHeader\<rparr>"
  by code_simp

lemma four_in_flight_conforms: "conforms (spec_run 1 four_in_flight)"
  by code_simp

lemma four_answered_conforms: "conforms (spec_run 1 four_answered)"
  by code_simp

theorem fault_only_on_tag_out_of_range_witness:
  "manageUpstreamPort 1 four_in_flight = Inr \<lparr>tagTableLower = [0xA0, 0xA1, 0xA2, 0xA3],
     tagTableUpper = [0xB0, 0xB1, 0xB2, 0xB3], tagFifo = [],
     reqFlow = RqRecvHeader, respFlow = RsRecvHeader\<rparr>
   \<and> pm_step 1 \<lparr>tagTableLower = [0xA0, 0xA1, 0xA2, 0xA3],
     tagTableUpper = [0xB0, 0xB1, 0xB2, 0xB3], tagFifo = [],
     reqFlow = RqRecvHeader, respFlow = RsRecvHeader\<rparr> (TaggedResponse (sample_resp 3))
     \<noteq> Inl IndexOutOfRange
   \<and> pm_step 1 \<lparr>tagTableLower = [0xA0, 0xA1, 0xA2, 0xA3],
     tagTableUpper = [0xB0, 0xB1, 0xB2, 0xB3], tagFifo = [],
     reqFlow = RqRecvHeader, respFlow = RsRecvHeader\<rparr> (TaggedResponse bad_resp)
     = Inl IndexOutOfRange"
  using fault_only_on_tag_out_of_range [OF four_in_flight_state, of "TaggedResponse (sample_resp 3)"]
    fault_only_on_tag_out_of_range [OF four_in_flight_state, of "TaggedResponse bad_resp"]
    four_in_flight_state
  by (simp add: sample_resp_def bad_resp_def)

text \<open>
  C7 as stated fails: a response header with the tag byte 7, which was never issued,
  makes the port manager panic on its first table lookup.
\<close>

theorem unissued_tag_counterexample:
  "manageUpstreamPort 1 [TaggedResponse bad_resp] = Inl IndexOutOfRange"
  by (simp add: manageUpstreamPort_def pm_init_eq bad_resp_def)

lemma four_answered_matched: "matched (spec_run 1 four_answered)"
  by code_simp

lemma spec_tagged_header_bytes:
  assumes "length (Data h) = 8"
  shows "Data (spec_tagged_header p t h) ! 2 = p \<and> Data (spec_tagged_header p t h) ! 3 = t
    \<and> (\<forall>i. i \<noteq> 2 \<and> i \<noteq> 3 \<longrightarrow> Data (spec_tagged_header p t h) ! i = Data h ! i)
    \<and> Eofc (spec_tagged_header p t h) = Eofc h"
  using assms by (simp add: spec_tagged_header_def nth_list_update)

lemma pm_run_append:
  "pm_run p s (xs @ ys) = (case pm_run p s xs of Inl e \<Rightarrow> Inl e | Inr s' \<Rightarrow> pm_run p s' ys)"
proof (induction xs arbitrary: s)
  case Nil then show ?case by simp
next
  case (Cons a xs)
  then show ?case by (cases "pm_step p s a") simp_all
qed

lemma manage_append:
  assumes "manageUpstreamPort p acts = Inr s"
  shows "manageUpstreamPort p (acts @ later) = pm_run p s later"
proof -
  from assms obtain s0 where i: "pm_init = Some s0" and r: "pm_run p s0 acts = Inr s"
    by (rule manage_run)
  show ?thesis by (simp add: manageUpstreamPort_def i pm_run_append r)
qed

lemma body_run:
  "reqFlow s = RqRecvBody \<Longrightarrow> is_frame body
   \<Longrightarrow> pm_run p s (concat (map (\<lambda>f. [UpstreamRequest f, TaggedRequest f]) body))
       = Inr (s\<lparr>reqFlow := RqRecvHeader\<rparr>)"
proof (induction body arbitrary: s)
  case Nil then show ?case by simp
next
  case (Cons f fs)
  show ?case
  proof (cases "fs = []")
    case True
    with Cons.prems show ?thesis by (simp add: req_next_def)
  next
    case False
    with Cons.prems have e: "Eofc f = 0" and fr: "is_frame fs" by simp_all
    have "reqFlow (s\<lparr>reqFlow := RqRecvBody\<rparr>) = RqRecvBody" by simp
    from Cons.IH [OF this fr] Cons.prems(1) e show ?thesis by (simp add: req_next_def)
  qed
qed

lemma sent_tagged_append: "sent_tagged (xs @ ys) = sent_tagged xs @ sent_tagged ys"
  by (simp add: sent_tagged_def)

lemma sent_tagged_body:
  "sent_tagged (concat (map (\<lambda>f. [UpstreamRequest f, TaggedRequest f]) body)) = body"
  by (induction body) (simp_all add: tagged_of_def)

lemma frame_run:
  assumes "safe_inv s" "reqFlow s = RqRecvHeader" "tagFifo s = tagId # pool" "is_frame (h # body)"
  shows "pm_run p s (request_frame_acts p tagId h body)
    = Inr (s\<lparr>tagFifo := pool,
            tagTableLower := (tagTableLower s)[unat tagId := Data h ! 2],
            tagTableUpper := (tagTableUpper s)[unat tagId := Data h ! 3],
            reqFlow := RqRecvHeader\<rparr>)"
proof -
  let ?h = "spec_tagged_header p tagId h"
  let ?s = "s\<lparr>tagFifo := pool,
            tagTableLower := (tagTableLower s)[unat tagId := Data h ! 2],
            tagTableUpper := (tagTableUpper s)[unat tagId := Data h ! 3],
            reqFlow := req_next ?h\<rparr>"
  from assms(1,3) have lt: "unat tagId < length (tagTableLower s)"
    "unat tagId < length (tagTableUpper s)"
    by (simp_all add: safe_inv_def)
  with assms(2,3) have hd: "pm_run p s [UpstreamRequest h, TagLease tagId, TransferReq p,
      TaggedRequest ?h] = Inr ?s"
    by (simp add: spec_tagged_header_def)
  have nx: "req_next ?h = (if body = [] then RqRecvHeader else RqRecvBody)"
    using assms(4) by (auto simp: req_next_def spec_tagged_header_def)
  have split: "pm_run p s (request_frame_acts p tagId h body)
      = pm_run p ?s (concat (map (\<lambda>f. [UpstreamRequest f, TaggedRequest f]) body))"
    unfolding request_frame_acts_def pm_run_append hd by simp
  show ?thesis
  proof (cases "body = []")
    case True
    with nx show ?thesis unfolding split by simp
  next
    case False
    with assms(4) have fr: "is_frame body" by simp
    from False nx have "reqFlow ?s = RqRecvBody" by simp
    from body_run [OF this fr, of p] show ?thesis unfolding split by simp
  qed
qed

lemma sent_tagged_frame:
  "sent_tagged (request_frame_acts p tagId h body) = spec_tagged_header p tagId h # body"
  by (simp add: request_frame_acts_def sent_tagged_append sent_tagged_body tagged_of_def)

lemma body_steps:
  "reqFlow s = RqRecvBody \<Longrightarrow> pm_step p s (UpstreamRequest f) = Inr (s\<lparr>reqFlow := RqSendBody f\<rparr>)"
  "reqFlow s = RqSendBody f \<Longrightarrow> pm_step p s (TaggedRequest g)
     = (if g = f then Inr (s\<lparr>reqFlow := req_next f\<rparr>) else Inl Blocked)"
  by simp_all

text \<open>
  C6: in every run of a port manager, the stream it has sent on \<open>taggedRequest\<close>,
  followed by the flit the request flow holds, is the stream received from upstream with
  each header rewritten by \<open>spec_tagged_header\<close> and every body flit as it was
  received. The rewritten header has the port id at offset 2 and the leased tag at
  offset 3; its other bytes and its completion code are those of the original. And the
  frame is forwarded: from any state the port manager can reach in which the request flow
  waits for a header and the pool holds a tag, the channel operations of a whole request
  frame go through, and what they send on \<open>taggedRequest\<close> is the rewritten header
  followed by every body flit, unchanged and in order; in any state a body flit is taken
  as it comes and the only flit the request flow can send next is that flit.
\<close>

theorem request_rewrite:
  assumes "manageUpstreamPort portId acts = Inr s"
  shows "expTagged (spec_run portId acts) = sent_tagged acts @ req_held (reqFlow s)
    \<and> (\<forall>tagId h. length (Data h) = 8 \<longrightarrow>
          Data (spec_tagged_header portId tagId h) ! 2 = portId
          \<and> Data (spec_tagged_header portId tagId h) ! 3 = tagId
          \<and> (\<forall>i. i \<noteq> 2 \<and> i \<noteq> 3 \<longrightarrow>
                Data (spec_tagged_header portId tagId h) ! i = Data h ! i)
          \<and> Eofc (spec_tagged_header portId tagId h) = Eofc h)
    \<and> (\<forall>tagId pool h body.
          reqFlow s = RqRecvHeader \<and> tagFifo s = tagId # pool \<and> is_frame (h # body) \<longrightarrow>
          manageUpstreamPort portId (acts @ request_frame_acts portId tagId h body)
            = Inr (s\<lparr>tagFifo := pool,
                    tagTableLower := (tagTableLower s)[unat tagId := Data h ! 2],
                    tagTableUpper := (tagTableUpper s)[unat tagId := Data h ! 3],
                    reqFlow := RqRecvHeader\<rparr>)
          \<and> sent_tagged (acts @ request_frame_acts portId tagId h body)
            = sent_tagged acts @ spec_tagged_header portId tagId h # body)
    \<and> (\<forall>f. reqFlow s = RqRecvBody \<longrightarrow>
          pm_step portId s (UpstreamRequest f) = Inr (s\<lparr>reqFlow := RqSendBody f\<rparr>))
    \<and> (\<forall>f g. reqFlow s = RqSendBody f \<longrightarrow>
          pm_step portId s (TaggedRequest g)
            = (if g = f then Inr (s\<lparr>reqFlow := req_next f\<rparr>) else Inl Blocked))"
proof (intro conjI)
  from manage_req_inv [OF assms]
  show "expTagged (spec_run portId acts) = sent_tagged acts @ req_held (reqFlow s)"
    by (simp add: req_inv_def)
next
  show "\<forall>tagId h. length (Data h) = 8 \<longrightarrow>
          Data (spec_tagged_header portId tagId h) ! 2 = portId
          \<and> Data (spec_tagged_header portId tagId h) ! 3 = tagId
          \<and> (\<forall>i. i \<noteq> 2 \<and> i \<noteq> 3 \<longrightarrow>
                Data (spec_tagged_header portId tagId h) ! i = Data h ! i)
          \<and> Eofc (spec_tagged_header portId tagId h) = Eofc h"
    using spec_tagged_header_bytes by blast
next
  show "\<forall>tagId pool h body.
          reqFlow s = RqRecvHeader \<and> tagFifo s = tagId # pool \<and> is_frame (h # body) \<longrightarrow>
          manageUpstreamPort portId (acts @ request_frame_acts portId tagId h body)
            = Inr (s\<lparr>tagFifo := pool,
                    tagTableLower := (tagTableLower s)[unat tagId := Data h ! 2],
                    tagTableUpper := (tagTableUpper s)[unat tagId := Data h ! 3],
                    reqFlow := RqRecvHeader\<rparr>)
          \<and> sent_tagged (acts @ request_frame_acts portId tagId h body)
            = sent_tagged acts @ spec_tagged_header portId tagId h # body"
  proof (intro allI impI, elim conjE)
    fix tagId pool h body
    assume a: "reqFlow s = RqRecvHeader" "tagFifo s = tagId # pool" "is_frame (h # body)"
    from frame_run [OF manage_safe [OF assms] a, of portId]
    show "manageUpstreamPort portId (acts @ request_frame_acts portId tagId h body)
            = Inr (s\<lparr>tagFifo := pool,
                    tagTableLower := (tagTableLower s)[unat tagId := Data h ! 2],
                    tagTableUpper := (tagTableUpper s)[unat tagId := Data h ! 3],
                    reqFlow := RqRecvHeader\<rparr>)
          \<and> sent_tagged (acts @ request_frame_acts portId tagId h body)
            = sent_tagged acts @ spec_tagged_header portId tagId h # body"
      by (simp only: manage_append [OF assms] sent_tagged_append sent_tagged_frame simp_thms)
  qed
next
  show "\<forall>f. reqFlow s = RqRecvBody \<longrightarrow>
          pm_step portId s (UpstreamRequest f) = Inr (s\<lparr>reqFlow := RqSendBody f\<rparr>)"
    using body_steps(1) by blast
next
  show "\<forall>f g. reqFlow s = RqSendBody f \<longrightarrow>
          pm_step portId s (TaggedRequest g)
            = (if g = f then Inr (s\<lparr>reqFlow := req_next f\<rparr>) else Inl Blocked)"
    using body_steps(2) by blast
qed

lemma start_state:
  "manageUpstreamPort 1 [] = Inr \<lparr>tagTableLower = [0, 0, 0, 0], tagTableUpper = [0, 0, 0, 0],
     tagFifo = [0, 1, 2, 3], reqFlow = RqRecvHeader, respFlow = RsRecvHeader\<rparr>"
  by (simp add: manageUpstreamPort_def pm_init_eq)

theorem request_rewrite_witness:
  "manageUpstreamPort 1 [] = Inr \<lparr>tagTableLower = [0, 0, 0, 0], tagTableUpper = [0, 0, 0, 0],
     tagFifo = [0, 1, 2, 3], reqFlow = RqRecvHeader, respFlow = RsRecvHeader\<rparr>
   \<and> is_frame (sample_hdr # [flitA, flitB])
   \<and> manageUpstreamPort 1 ([] @ request_frame_acts 1 0 sample_hdr [flitA, flitB])
       = Inr \<lparr>tagTableLower = [0xAA, 0, 0, 0], tagTableUpper = [0xBB, 0, 0, 0],
           tagFifo = [1, 2, 3], reqFlow = RqRecvHeader, respFlow = RsRecvHeader\<rparr>
   \<and> sent_tagged ([] @ request_frame_acts 1 0 sample_hdr [flitA, flitB])
       = [\<lparr>Data = [1, 0, 1, 0, 0, 0x10, 0, 0], Eofc = 0\<rparr>, flitA, flitB]"
proof -
  have f: "is_frame (sample_hdr # [flitA, flitB])"
    by (simp add: sample_hdr_def flitA_def flitB_def)
  note th = request_rewrite [OF start_state]
  from th have "\<forall>tagId pool h body.
      reqFlow \<lparr>tagTableLower = [0, 0, 0, 0], tagTableUpper = [0, 0, 0, 0],
        tagFifo = [0, 1, 2, 3], reqFlow = RqRecvHeader, respFlow = RsRecvHeader\<rparr> = RqRecvHeader
      \<and> tagFifo \<lparr>tagTableLower = [0, 0, 0, 0], tagTableUpper = [0, 0, 0, 0],
        tagFifo = [0, 1, 2, 3], reqFlow = RqRecvHeader, respFlow = RsRecvHeader\<rparr> = tagId # pool
      \<and> is_frame (h # body) \<longrightarrow>
          manageUpstreamPort 1 ([] @ request_frame_acts 1 tagId h body)
            = Inr (\<lparr>tagTableLower = [0, 0, 0, 0], tagTableUpper = [0, 0, 0, 0],
                tagFifo = [0, 1, 2, 3], reqFlow = RqRecvHeader, respFlow = RsRecvHeader\<rparr>
                \<lparr>tagFifo := pool,
                  tagTableLower := [0, 0, 0, 0][unat tagId := Data h ! 2],
                  tagTableUpper := [0, 0, 0, 0][unat tagId := Data h ! 3],
                  reqFlow := RqRecvHeader\<rparr>)
          \<and> sent_tagged ([] @ request_frame_acts 1 tagId h body)
            = sent_tagged [] @ spec_tagged_header 1 tagId h # body"
    by simp
  from this [THEN spec, THEN spec, THEN spec, THEN spec, of 0 "[1, 2, 3]" sample_hdr "[flitA, flitB]"] f
  have "manageUpstreamPort 1 ([] @ request_frame_acts 1 0 sample_hdr [flitA, flitB])
       = Inr \<lparr>tagTableLower = [0xAA, 0, 0, 0], tagTableUpper = [0xBB, 0, 0, 0],
           tagFifo = [1, 2, 3], reqFlow = RqRecvHeader, respFlow = RsRecvHeader\<rparr>
   \<and> sent_tagged ([] @ request_frame_acts 1 0 sample_hdr [flitA, flitB])
       = [\<lparr>Data = [1, 0, 1, 0, 0, 0x10, 0, 0], Eofc = 0\<rparr>, flitA, flitB]"
    by (simp add: sample_hdr_def spec_tagged_header_def)
  with f start_state show ?thesis by (intro conjI) simp_all
qed

lemma length_le_4:
  assumes "distinct (xs :: 8 word list)" "set xs \<subseteq> {0, 1, 2, 3}"
  shows "length xs \<le> 4"
proof -
  from assms(1) have "length xs = card (set xs)" by (simp add: distinct_card)
  also from assms(2) have "\<dots> \<le> card {0, 1, 2, 3 :: 8 word}" by (intro card_mono) simp_all
  also have "\<dots> \<le> 4" by (simp add: card_insert_if)
  finally show ?thesis .
qed

lemma four_tags_full:
  assumes "distinct (xs @ ys)" "set (xs @ ys) = {0, 1, 2, 3 :: 8 word}" "length xs = 4"
  shows "ys = []"
proof -
  from assms(1) have "length (xs @ ys) = card (set (xs @ ys))" by (simp only: distinct_card)
  also have "\<dots> = card {0, 1, 2, 3 :: 8 word}" by (simp only: assms(2))
  also have "\<dots> = 4" by simp
  finally show ?thesis using assms(3) by simp
qed

lemma lease_blocked: "tagFifo s = [] \<Longrightarrow> pm_step p s (TagLease t) = Inl Blocked"
  by (cases "reqFlow s") simp_all

text \<open>
  C3, as the code has it: as long as every response header the port manager has received
  carried the tag of a request in flight, at most 4 requests are in flight, their tags
  are distinct and among 0..3, no tag in flight is in the pool, and with 4 requests in
  flight the pool is empty and the lease of a tag waits. The pool starts as 0, 1, 2, 3.
\<close>

theorem in_flight_bound:
  assumes "manageUpstreamPort portId acts = Inr s" and "conforms (spec_run portId acts)"
  shows "length (inflight (spec_run portId acts)) \<le> 4
    \<and> distinct (map fst (inflight (spec_run portId acts)))
    \<and> set (map fst (inflight (spec_run portId acts))) \<subseteq> {0, 1, 2, 3}
    \<and> set (map fst (inflight (spec_run portId acts))) \<inter> set (tagFifo s) = {}
    \<and> (length (inflight (spec_run portId acts)) = 4 \<longrightarrow>
          tagFifo s = [] \<and> (\<forall>t. pm_step portId s (TagLease t) = Inl Blocked))
    \<and> map_option tagFifo pm_init = Some [0, 1, 2, 3]"
proof -
  let ?m = "spec_run portId acts"
  from manage_resp_inv [OF assms(1)] assms(2)
  have d: "distinct (map fst (inflight ?m) @ tagFifo s @ resp_tag (respFlow s))"
    and st: "set (map fst (inflight ?m) @ tagFifo s @ resp_tag (respFlow s)) = {0, 1, 2, 3}"
    by (simp_all add: resp_inv_def all_tags_def)
  from d have d1: "distinct (map fst (inflight ?m))" by simp
  from st have s1: "set (map fst (inflight ?m)) \<subseteq> {0, 1, 2, 3}" by auto
  from length_le_4 [OF d1 s1] have l: "length (inflight ?m) \<le> 4" by simp
  from d have dj: "set (map fst (inflight ?m)) \<inter> set (tagFifo s) = {}" by auto
  have full: "length (inflight ?m) = 4 \<longrightarrow>
      tagFifo s = [] \<and> (\<forall>t. pm_step portId s (TagLease t) = Inl Blocked)"
  proof
    assume "length (inflight ?m) = 4"
    then have "length (map fst (inflight ?m)) = 4" by simp
    from four_tags_full [OF d st this] have "tagFifo s = []" by simp
    then show "tagFifo s = [] \<and> (\<forall>t. pm_step portId s (TagLease t) = Inl Blocked)"
      using lease_blocked [of s portId] by blast
  qed
  have "map_option tagFifo pm_init = Some [0, 1, 2, 3]" by (simp add: pm_init_eq)
  with l d1 s1 dj full show ?thesis by blast
qed

theorem in_flight_bound_witness:
  "manageUpstreamPort 1 four_in_flight = Inr \<lparr>tagTableLower = [0xA0, 0xA1, 0xA2, 0xA3],
     tagTableUpper = [0xB0, 0xB1, 0xB2, 0xB3], tagFifo = [],
     reqFlow = RqRecvHeader, respFlow = RsRecvHeader\<rparr>
   \<and> conforms (spec_run 1 four_in_flight)
   \<and> length (inflight (spec_run 1 four_in_flight)) = 4
   \<and> manageUpstreamPort 1 (four_in_flight @ [UpstreamRequest (sample_req 4), TagLease 0])
       = Inl Blocked"
proof -
  have n: "length (inflight (spec_run 1 four_in_flight)) = 4" by code_simp
  have b: "manageUpstreamPort 1 (four_in_flight @ [UpstreamRequest (sample_req 4), TagLease 0])
       = Inl Blocked" by code_simp
  from in_flight_bound [OF four_in_flight_state four_in_flight_conforms] n b
    four_in_flight_state four_in_flight_conforms
  show ?thesis by simp
qed

text \<open>
  C3 as stated fails: the port manager does not check that a response answers a request.
  After one request, a response header with tag 1 puts tag 1 into the pool a second time;
  four more requests are then accepted, five requests are in flight, and two of them hold
  tag 1.
\<close>

theorem duplicate_tag_counterexample:
  "manageUpstreamPort 1 unsolicited_run
     = Inr \<lparr>tagTableLower = [0xA0, 0xA4, 0xA2, 0xA3], tagTableUpper = [0xB0, 0xB4, 0xB2, 0xB3],
         tagFifo = [], reqFlow = RqRecvHeader, respFlow = RsRecvHeader\<rparr>
   \<and> map fst (inflight (spec_run 1 unsolicited_run)) = [0, 1, 2, 3, 1]"
  by code_simp

section \<open>Arbiter loops\<close>


lemma steerLoop_header_any:
  "steerLoop sw (p, True) fs = steerLoop sw (q, True) fs"
  by (cases fs) (simp_all add: steerFlit_def Let_def)

lemma steerLoop_body:
  "open_flits xs \<Longrightarrow> Eofc t \<noteq> 0
   \<Longrightarrow> steerLoop sw (q, False) (xs @ t # rest)
       = map (Pair (sw q)) (xs @ [t]) @ steerLoop sw (q, True) rest"
  by (induction xs) (simp_all add: steerFlit_def Let_def)

lemma steerLoop_frame:
  assumes "is_frame fr"
  shows "steerLoop sw (p, True) (fr @ rest)
    = map (Pair (sw (frame_port fr))) fr @ steerLoop sw steer_init rest"
proof -
  from assms obtain f fs where fr: "fr = f # fs" by (cases fr) auto
  show ?thesis
  proof (cases "fs = []")
    case True
    with assms fr show ?thesis
      using steerLoop_header_any [of sw "Data f ! 2" rest 0]
      by (simp add: steerFlit_def Let_def frame_port_def steer_init_def)
  next
    case False
    with assms fr have f0: "Eofc f = 0" and "is_frame fs" by simp_all
    then obtain xs t where fs: "fs = xs @ [t]" "open_flits xs" "Eofc t \<noteq> 0"
      by (auto simp: is_frame_iff)
    from steerLoop_body [OF fs(2,3), of sw "Data f ! 2" rest] fr fs f0 show ?thesis
      using steerLoop_header_any [of sw "Data f ! 2" rest 0]
      by (simp add: steerFlit_def Let_def frame_port_def steer_init_def)
  qed
qed

lemma steerLoop_frames_then:
  "\<forall>fr\<in>set frs. is_frame fr
   \<Longrightarrow> steerLoop sw steer_init (concat frs @ rest)
       = concat (map (\<lambda>fr. map (Pair (sw (frame_port fr))) fr) frs)
         @ steerLoop sw steer_init rest"
proof (induction frs)
  case Nil then show ?case by simp
next
  case (Cons fr frs)
  then have "is_frame fr" by simp
  from steerLoop_frame [OF this, of sw 0 "concat frs @ rest"] Cons show ?case
    by (simp add: steer_init_def)
qed

lemma steerLoop_frames:
  "\<forall>fr\<in>set frs. is_frame fr
   \<Longrightarrow> steerLoop sw steer_init (concat frs)
       = concat (map (\<lambda>fr. map (Pair (sw (frame_port fr))) fr) frs)"
  using steerLoop_frames_then [of frs sw "[]"] by simp

lemma steerLoop_discard:
  assumes "\<forall>fr\<in>set frs. is_frame fr" "is_frame bad" "sw (frame_port bad) = None"
  shows "steerLoop sw steer_init (concat frs @ bad @ rest)
    = steerLoop sw steer_init (concat frs) @ map (Pair None) bad
      @ steerLoop sw steer_init rest"
proof -
  from steerLoop_frame [OF assms(2), of sw 0 rest] assms(3)
  have "steerLoop sw steer_init (bad @ rest)
    = map (Pair None) bad @ steerLoop sw steer_init rest"
    by (simp add: steer_init_def)
  with assms(1) show ?thesis
    by (simp add: steerLoop_frames_then steerLoop_frames)
qed

lemma delivered_Nil [simp]: "delivered k [] = []"
  by (simp add: delivered_def)

lemma delivered_append [simp]: "delivered k (xs @ ys) = delivered k xs @ delivered k ys"
  by (simp add: delivered_def)

lemma delivered_frame [simp]:
  "delivered k (map (Pair d) fr) = (if d = Some k then fr else [])"
  by (simp add: delivered_def filter_map comp_def)

lemma delivered_frames:
  "delivered k (concat (map (\<lambda>fr. map (Pair (sw (frame_port fr))) fr) frs))
   = concat (filter (\<lambda>fr. sw (frame_port fr) = Some k) frs)"
  by (induction frs) simp_all

lemma steer_delivered:
  "\<forall>fr\<in>set frs. is_frame fr
   \<Longrightarrow> delivered k (steerLoop sw steer_init (concat frs))
       = concat (filter (\<lambda>fr. sw (frame_port fr) = Some k) frs)"
  by (simp add: steerLoop_frames delivered_frames)

text \<open>
  C4: for each arbiter and every stream of response frames, the channel of port \<open>k\<close>
  receives exactly the frames whose header carries a port id that the switch sends to
  \<open>k\<close>, each of them whole (header and body flits up to the flit with nonzero completion
  code) and in order, and nothing else, however the frames for the ports alternate. The
  ids 1..N are sent to the channels A, B, .. of the N ports.
\<close>

theorem response_steering:
  assumes "\<forall>fr\<in>set frs. is_frame fr"
  shows "delivered k (ArbitrateX2_steer (concat frs))
           = concat (filter (\<lambda>fr. steerX2 (frame_port fr) = Some k) frs)
    \<and> delivered k (ArbitrateX3_steer (concat frs))
           = concat (filter (\<lambda>fr. steerX3 (frame_port fr) = Some k) frs)
    \<and> delivered k (ArbitrateX4_steer (concat frs))
           = concat (filter (\<lambda>fr. steerX4 (frame_port fr) = Some k) frs)
    \<and> map steerX2 [1, 2] = [Some PortA, Some PortB]
    \<and> map steerX3 [1, 2, 3] = [Some PortA, Some PortB, Some PortC]
    \<and> map steerX4 [1, 2, 3, 4] = [Some PortA, Some PortB, Some PortC, Some PortD]"
  using assms
  by (simp add: ArbitrateX2_steer_def ArbitrateX3_steer_def ArbitrateX4_steer_def
      steer_delivered steerX2_def steerX3_def steerX4_def)


theorem response_steering_witness:
  "is_frame [flitA, flitB] \<and> is_frame [flitC]
   \<and> delivered PortA (ArbitrateX2_steer (concat [[flitA, flitB], [flitC], [flitA, flitB]]))
       = [flitA, flitB, flitA, flitB]
   \<and> delivered PortB (ArbitrateX4_steer (concat [[flitA, flitB], [flitC], [flitA, flitB]]))
       = [flitC]"
proof -
  have h: "\<forall>fr\<in>set [[flitA, flitB], [flitC], [flitA, flitB]]. is_frame fr"
    by (simp add: flitA_def flitB_def flitC_def)
  from response_steering [OF h, of PortA] response_steering [OF h, of PortB] h
  show ?thesis
    by (simp add: frame_port_def steerX2_def steerX4_def flitA_def flitB_def flitC_def)
qed

text \<open>
  C5: a response frame whose header carries a port id that matches no configured port
  (any id outside 1..N, the reserved 0 included) is discarded flit by flit: none of its
  flits is sent to any channel. The frames before it are steered as without it, and the
  stream that follows it is steered as from the initial state of the loop.
\<close>

theorem discard_unconfigured:
  assumes "\<forall>fr\<in>set frs. is_frame fr" and "is_frame bad"
  shows "(steerX2 (frame_port bad) = None \<longrightarrow>
            ArbitrateX2_steer (concat frs @ bad @ rest)
            = ArbitrateX2_steer (concat frs) @ map (Pair None) bad @ ArbitrateX2_steer rest)
    \<and> (steerX3 (frame_port bad) = None \<longrightarrow>
            ArbitrateX3_steer (concat frs @ bad @ rest)
            = ArbitrateX3_steer (concat frs) @ map (Pair None) bad @ ArbitrateX3_steer rest)
    \<and> (steerX4 (frame_port bad) = None \<longrightarrow>
            ArbitrateX4_steer (concat frs @ bad @ rest)
            = ArbitrateX4_steer (concat frs) @ map (Pair None) bad @ ArbitrateX4_steer rest)
    \<and> (steerX2 p = None \<longleftrightarrow> p \<notin> {1, 2})
    \<and> (steerX3 p = None \<longleftrightarrow> p \<notin> {1, 2, 3})
    \<and> (steerX4 p = None \<longleftrightarrow> p \<notin> {1, 2, 3, 4})"
proof (intro conjI impI)
  assume "steerX2 (frame_port bad) = None"
  with assms show "ArbitrateX2_steer (concat frs @ bad @ rest)
      = ArbitrateX2_steer (concat frs) @ map (Pair None) bad @ ArbitrateX2_steer rest"
    unfolding ArbitrateX2_steer_def by (rule steerLoop_discard)
next
  assume "steerX3 (frame_port bad) = None"
  with assms show "ArbitrateX3_steer (concat frs @ bad @ rest)
      = ArbitrateX3_steer (concat frs) @ map (Pair None) bad @ ArbitrateX3_steer rest"
    unfolding ArbitrateX3_steer_def by (rule steerLoop_discard)
next
  assume "steerX4 (frame_port bad) = None"
  with assms show "ArbitrateX4_steer (concat frs @ bad @ rest)
      = ArbitrateX4_steer (concat frs) @ map (Pair None) bad @ ArbitrateX4_steer rest"
    unfolding ArbitrateX4_steer_def by (rule steerLoop_discard)
qed (simp_all add: steerX2_def steerX3_def steerX4_def)

theorem discard_unconfigured_witness:
  "is_frame [flitC] \<and> is_frame [flitD]
   \<and> steerX2 (frame_port [flitD]) = None
   \<and> ArbitrateX2_steer (concat [[flitC]] @ [flitD] @ [flitA, flitB])
       = [(Some PortB, flitC), (None, flitD), (Some PortA, flitA), (Some PortA, flitB)]"
proof -
  have h: "\<forall>fr\<in>set [[flitC]]. is_frame fr" by (simp add: flitC_def)
  have b: "is_frame [flitD]" by (simp add: flitD_def)
  have n: "steerX2 (frame_port [flitD]) = None"
    by (simp add: steerX2_def frame_port_def flitD_def)
  have l: "ArbitrateX2_steer (concat [[flitC]]) = [(Some PortB, flitC)]"
    by (simp add: ArbitrateX2_steer_def steer_init_def steerFlit_def steerX2_def flitC_def)
  have r: "ArbitrateX2_steer [flitA, flitB] = [(Some PortA, flitA), (Some PortA, flitB)]"
    by (simp add: ArbitrateX2_steer_def steer_init_def steerFlit_def steerX2_def
        flitA_def flitB_def)
  from discard_unconfigured [OF h b, of "[flitA, flitB]"] h b n l r show ?thesis by simp
qed

lemma copyFrame_split:
  "copyFrame fs = (copied, left, completed)
   \<Longrightarrow> fs = copied @ left \<and> (if completed then is_frame copied else open_flits copied)"
proof (induction fs arbitrary: copied left completed)
  case Nil then show ?case by simp
next
  case (Cons f fs)
  show ?case
  proof (cases "Eofc f = 0")
    case False
    with Cons.prems show ?thesis by auto
  next
    case True
    obtain c l b where r: "copyFrame fs = (c, l, b)" by (cases "copyFrame fs") auto
    from Cons.IH [OF r] have "fs = c @ l" and "if b then is_frame c else open_flits c"
      by simp_all
    moreover from Cons.prems True r have "copied = f # c" "left = l" "completed = b"
      by simp_all
    ultimately show ?thesis using True by (auto split: if_splits)
  qed
qed

lemma atomic_frames_open:
  "open_flits fs \<Longrightarrow> cur = None \<or> cur = Some p \<Longrightarrow> fs \<noteq> []
   \<Longrightarrow> atomic_frames cur (map (Pair p) fs @ rest) = atomic_frames (Some p) rest"
proof (induction fs arbitrary: cur)
  case Nil then show ?case by simp
next
  case (Cons f fs)
  then show ?case by (cases "fs = []") auto
qed

lemma atomic_frames_frame:
  assumes "is_frame fr" "cur = None \<or> cur = Some p"
  shows "atomic_frames cur (map (Pair p) fr @ rest) = atomic_frames None rest"
proof -
  from assms(1) obtain xs t where fr: "fr = xs @ [t]" "open_flits xs" "Eofc t \<noteq> 0"
    by (auto simp: is_frame_iff)
  show ?thesis
  proof (cases "xs = []")
    case True
    with fr assms(2) show ?thesis by auto
  next
    case False
    from atomic_frames_open [OF fr(2) assms(2) False, of "(p, t) # rest"] fr show ?thesis
      by simp
  qed
qed

lemma atomic_frames_tail:
  "open_flits fs \<Longrightarrow> cur = None \<or> cur = Some p \<Longrightarrow> atomic_frames cur (map (Pair p) fs)"
  using atomic_frames_open [of fs cur p "[]"] by (cases "fs = []") simp_all

lemma arbitrateLoop_atomic: "atomic_frames None (arbitrateLoop sw ids chans)"
proof (induction ids arbitrary: chans)
  case Nil then show ?case by simp
next
  case (Cons i ids)
  obtain c l b where r: "copyFrame (chans (sw i)) = (c, l, b)"
    by (cases "copyFrame (chans (sw i))") auto
  from copyFrame_split [OF r] have fr: "if b then is_frame c else open_flits c" by simp
  show ?case
  proof (cases b)
    case True
    with fr have "is_frame c" by simp
    from atomic_frames_frame [OF this, of None "sw i"] Cons.IH r True show ?thesis by simp
  next
    case False
    with fr have "open_flits c" by simp
    from atomic_frames_tail [OF this, of None "sw i"] r False show ?thesis by simp
  qed
qed

lemma read_from_simps [simp]:
  "read_from c [] = []"
  "read_from c (xs @ ys) = read_from c xs @ read_from c ys"
  "read_from c (map (Pair p) fs) = (if p = c then fs else [])"
  by (simp_all add: read_from_def filter_map comp_def)

lemma arbitrateLoop_order: "prefix (read_from k (arbitrateLoop sw ids chans)) (chans k)"
proof (induction ids arbitrary: chans)
  case Nil then show ?case by simp
next
  case (Cons i ids)
  obtain c l b where r: "copyFrame (chans (sw i)) = (c, l, b)"
    by (cases "copyFrame (chans (sw i))") auto
  from copyFrame_split [OF r] have eq: "chans (sw i) = c @ l" by simp
  show ?case
  proof (cases b)
    case False
    with r eq show ?thesis by (cases "sw i = k") auto
  next
    case True
    from Cons.IH [of "chans(sw i := l)"]
    have "prefix (read_from k (arbitrateLoop sw ids (chans(sw i := l)))) ((chans(sw i := l)) k)" .
    with r eq True show ?thesis by (cases "sw i = k") simp_all
  qed
qed

text \<open>
  C2: in the stream an arbiter writes to the downstream request channel, whatever port
  ids the select receives and whatever the tagged-request channels carry, a flit that
  follows a flit with completion code 0 was read from the same channel; and the flits
  read from one channel appear in the order of that channel, none skipped.
\<close>

theorem frame_atomicity:
  "atomic_frames None (ArbitrateX2_requests transferReq taggedRequest)
   \<and> prefix (read_from c (ArbitrateX2_requests transferReq taggedRequest)) (taggedRequest c)
   \<and> atomic_frames None (ArbitrateX3_requests transferReq taggedRequest)
   \<and> prefix (read_from c (ArbitrateX3_requests transferReq taggedRequest)) (taggedRequest c)
   \<and> atomic_frames None (ArbitrateX4_requests transferReq taggedRequest)
   \<and> prefix (read_from c (ArbitrateX4_requests transferReq taggedRequest)) (taggedRequest c)"
  by (simp add: ArbitrateX2_requests_def ArbitrateX3_requests_def ArbitrateX4_requests_def
      arbitrateLoop_atomic arbitrateLoop_order)

theorem frame_atomicity_witness:
  "ArbitrateX2_requests [2, 1] ((\<lambda>c. [])(PortA := [flitA, flitB], PortB := [flitC, flitD]))
     = [(PortB, flitC), (PortA, flitA), (PortA, flitB)]
   \<and> atomic_frames None [(PortB, flitC), (PortA, flitA), (PortA, flitB)]
   \<and> prefix [flitC] [flitC, flitD]"
proof -
  have e: "ArbitrateX2_requests [2, 1]
      ((\<lambda>c. [])(PortA := [flitA, flitB], PortB := [flitC, flitD]))
     = [(PortB, flitC), (PortA, flitA), (PortA, flitB)]"
    by (simp add: ArbitrateX2_requests_def selectX2_def flitA_def flitB_def flitC_def)
  from frame_atomicity [of "[2, 1]" "(\<lambda>c. [])(PortA := [flitA, flitB], PortB := [flitC, flitD])" PortB]
  show ?thesis unfolding e by (simp add: read_from_def)
qed

section \<open>Round trip of the tag, every table access a step\<close>

lemma rw_upstream_of_simps [simp]:
  "rw_upstream_of (Channel (UpstreamRequest f)) = []"
  "rw_upstream_of (Channel (TagLease t)) = []"
  "rw_upstream_of (Channel (TransferReq q)) = []"
  "rw_upstream_of (Channel (TaggedRequest f)) = []"
  "rw_upstream_of (Channel (TaggedResponse f)) = []"
  "rw_upstream_of (Channel (TagRelease t)) = []"
  "rw_upstream_of (Channel (UpstreamResponse f)) = [f]"
  "rw_upstream_of WriteLower = []" "rw_upstream_of WriteUpper = []"
  "rw_upstream_of ReadLower = []" "rw_upstream_of ReadUpper = []"
  by (simp_all add: rw_upstream_of_def)

lemma rw_sent_upstream_simps [simp]:
  "rw_sent_upstream [] = []"
  "rw_sent_upstream (a # acts) = rw_upstream_of a @ rw_sent_upstream acts"
  "rw_sent_upstream (xs @ ys) = rw_sent_upstream xs @ rw_sent_upstream ys"
  by (simp_all add: rw_sent_upstream_def)

lemma rt_causal_step: "rt_causal (rt_step m a) \<Longrightarrow> rt_causal m"
proof (cases a)
  case (Channel c)
  assume "rt_causal (rt_step m a)"
  with Channel show ?thesis
    by (cases c) (auto simp: rt_response_header_def split: if_splits option.splits)
qed simp_all

lemma rt_causal_foldl: "rt_causal (foldl rt_step m acts) \<Longrightarrow> rt_causal m"
  by (induction acts arbitrary: m) (auto dest: rt_causal_step)


















































text \<open>
  The condition on the responses is needed: a response header that carries a tag already
  given to a request whose header has not been sent on \<open>taggedRequest\<close> yet matches no
  request, and the response flow may read the tables between the two writes of the
  request flow. Here the response leaves with the new lower byte and the old upper byte.
\<close>

lemma early_response_torn:
  "manageUpstreamPort_rw 1 rw_early_response
     = Inr \<lparr>tagTableLower_rw = [0xA0, 0, 0, 0], tagTableUpper_rw = [0xB0, 0, 0, 0],
            tagFifo_rw = [1, 2, 3, 0],
            req_rw = RqAtTransfer \<lparr>Data = [2, 0, 1, 0, 0, 0, 0, 0], Eofc = 4\<rparr>,
            resp_rw = RsAtHeader\<rparr>
   \<and> rw_sent_upstream rw_early_response = [\<lparr>Data = [0xFD, 0, 0xA0, 0, 5, 6, 7, 8], Eofc = 8\<rparr>]
   \<and> \<not> rt_causal (rt_run rw_early_response)"
  by code_simp

end
